theory Spec2Isabelle
  imports Main "HOL-Library.Word"
begin

section \<open>Bytes, buffers and thrown errors\<close>

text \<open>
  The driver core of \<^verbatim>\<open>src/models/base.ts\<close> (class \<^verbatim>\<open>StreamDeckBase\<close>).
  A Node \<^verbatim>\<open>Buffer\<close> is a list of bytes. JavaScript numbers that carry key indices,
  colour components, percentages and lengths are integers here (\<^typ>\<open>int\<close>, or
  \<^typ>\<open>nat\<close> for sizes and loop counters that start at 0 and only grow).
  Every \<^verbatim>\<open>throw\<close> of the source, and every range error the Buffer methods it calls
  raise, is a value of \<open>error\<close>.
\<close>

type_synonym byte = "8 word"

datatype error =
    InvalidKeyIndex int          \<comment> \<open>TypeError: Expected a valid keyIndex 0 - (NUM_KEYS - 1)\<close>
  | InvalidRGBValue              \<comment> \<open>TypeError: Expected a valid color RGB value 0 - 255\<close>
  | InvalidImageLength int int   \<comment> \<open>RangeError: Expected image buffer of length .., got length ..\<close>
  | UnknownFormat string         \<comment> \<open>TypeError: Expected a known color format\<close>
  | InvalidBrightness            \<comment> \<open>RangeError: Expected brightness percentage to be between 0 and 100\<close>
  | BufferOutOfRange             \<comment> \<open>RangeError raised by a Buffer method (value or offset out of range)\<close>
  | HIDError                     \<comment> \<open>whatever the transport throws\<close>

text \<open>Sequencing of two steps, the first of which may throw.\<close>

definition and_then :: "error + 'a \<Rightarrow> ('a \<Rightarrow> error + 'b) \<Rightarrow> error + 'b" where
  "and_then r f = (case r of Inl e \<Rightarrow> Inl e | Inr a \<Rightarrow> f a)"

text \<open>
  \<^verbatim>\<open>buf.writeUInt8(value, offset)\<close> and \<^verbatim>\<open>buf.writeUInt16LE(value, offset)\<close>: Node
  throws a RangeError when the value does not fit or the bytes written would fall outside
  the buffer.
\<close>

definition writeUInt8 :: "byte list \<Rightarrow> int \<Rightarrow> nat \<Rightarrow> error + byte list" where
  "writeUInt8 buffer v off =
     (if v < 0 \<or> 255 < v \<or> length buffer \<le> off then Inl BufferOutOfRange
      else Inr (buffer[off := word_of_int v]))"

definition writeUInt16LE :: "byte list \<Rightarrow> int \<Rightarrow> nat \<Rightarrow> error + byte list" where
  "writeUInt16LE buffer v off =
     (if v < 0 \<or> 65535 < v \<or> length buffer < off + 2 then Inl BufferOutOfRange
      else Inr (buffer[off := word_of_int (v mod 256), off + 1 := word_of_int (v div 256)]))"

text \<open>
  \<^verbatim>\<open>source.copy(target, targetStart, sourceStart, sourceEnd)\<close>: negative source
  positions throw; nothing is copied when the target position is past the target or the
  source range is empty; otherwise as many bytes are copied as the source range, the room
  in the target and the source itself allow.
\<close>

definition buffer_copy :: "byte list \<Rightarrow> byte list \<Rightarrow> nat \<Rightarrow> int \<Rightarrow> int \<Rightarrow> error + byte list" where
  "buffer_copy source target targetStart sourceStart sourceEnd =
     (if sourceStart < 0 \<or> sourceEnd < 0 then Inl BufferOutOfRange
      else if length target \<le> targetStart \<or> sourceEnd \<le> sourceStart then Inr target
      else if int (length source) < sourceStart then Inl BufferOutOfRange
      else
        (let nb = min (min (nat (sourceEnd - sourceStart)) (length target - targetStart))
                      (length source - nat sourceStart);
             chunk = take nb (drop (nat sourceStart) source)
         in Inr (take targetStart target @ chunk @ drop (targetStart + nb) target)))"

section \<open>The packet framer\<close>

definition getFillImageCommandHeaderLength :: nat where
  "getFillImageCommandHeaderLength = 16"

definition writeFillImageCommandHeader ::
    "byte list \<Rightarrow> int \<Rightarrow> int \<Rightarrow> bool \<Rightarrow> int \<Rightarrow> error + byte list" where
  "writeFillImageCommandHeader buffer keyIndex partIndex isLast bodyLength =
     and_then (writeUInt8 buffer 0x02 0) (\<lambda>b0.
     and_then (writeUInt8 b0 0x01 1) (\<lambda>b1.
     and_then (writeUInt16LE b1 partIndex 2) (\<lambda>b2.
     and_then (writeUInt8 b2 (if isLast then 1 else 0) 4) (\<lambda>b4.
     writeUInt8 b4 (keyIndex + 1) 5))))"

text \<open>
  The loop of \<^verbatim>\<open>generateFillImageWrites\<close>, with its variables \<^verbatim>\<open>part\<close>,
  \<^verbatim>\<open>remainingBytes\<close> and \<^verbatim>\<open>result\<close> as arguments. \<open>packetLength\<close> is what the
  abstract \<^verbatim>\<open>getFillImagePacketLength()\<close> of the concrete model returns.
  The loop always ends: a part index above 65535 makes the header write throw.
\<close>

function fillImageLoop ::
    "nat \<Rightarrow> int \<Rightarrow> byte list \<Rightarrow> nat \<Rightarrow> int \<Rightarrow> byte list list \<Rightarrow> error + byte list list" where
  "fillImageLoop packetLength keyIndex byteBuffer part remainingBytes result =
     (let MAX_PACKET_SIZE = packetLength;
          PACKET_HEADER_LENGTH = getFillImageCommandHeaderLength;
          MAX_PAYLOAD_SIZE = int MAX_PACKET_SIZE - int PACKET_HEADER_LENGTH
      in if remainingBytes > 0 then
           (let packet = replicate MAX_PACKET_SIZE (0 :: byte);
                byteCount = min remainingBytes MAX_PAYLOAD_SIZE
            in case writeFillImageCommandHeader packet keyIndex (int part)
                      (remainingBytes \<le> MAX_PAYLOAD_SIZE) byteCount of
                 Inl e \<Rightarrow> Inl e
               | Inr packet1 \<Rightarrow>
                   (let byteOffset = int (length byteBuffer) - remainingBytes
                    in case buffer_copy byteBuffer packet1 PACKET_HEADER_LENGTH
                              byteOffset (byteOffset + byteCount) of
                         Inl e \<Rightarrow> Inl e
                       | Inr packet2 \<Rightarrow>
                           fillImageLoop packetLength keyIndex byteBuffer (part + 1)
                             (remainingBytes - byteCount) (result @ [packet2])))
         else Inr result)"
  by pat_completeness auto

lemma header_part_bound:
  "writeFillImageCommandHeader buffer keyIndex partIndex isLast bodyLength = Inr b
     \<Longrightarrow> partIndex \<le> 65535"
  by (auto simp: writeFillImageCommandHeader_def and_then_def writeUInt16LE_def
           split: sum.splits if_splits)

termination fillImageLoop
  by (relation "measure (\<lambda>(P, k, buf, part, rem, res). 65536 - part)")
     (auto dest!: header_part_bound)

declare fillImageLoop.simps [simp del]

definition generateFillImageWrites :: "nat \<Rightarrow> int \<Rightarrow> byte list \<Rightarrow> error + byte list list" where
  "generateFillImageWrites packetLength keyIndex byteBuffer =
     fillImageLoop packetLength keyIndex byteBuffer 0 (int (length byteBuffer)) []"


section \<open>The transport\<close>

text \<open>
  The HID handle is an external collaborator. What the driver does to it is the sequence
  of calls it makes, so the handle is the trace of those calls, together with the
  environment's decision, for each call, whether it throws (\<open>throws d tr\<close>: the call
  that completes the trace \<open>tr\<close> throws). A call that throws is still in the trace.
\<close>

datatype hid_call = Write "byte list" | SendFeatureReport "byte list" | Close

record HID =
  calls :: "hid_call list"
  throws :: "hid_call list \<Rightarrow> bool"

definition hid_call :: "hid_call \<Rightarrow> HID \<Rightarrow> (error + unit) \<times> HID" where
  "hid_call c d =
     (let tr = calls d @ [c]
      in (if throws d tr then Inl HIDError else Inr (), d\<lparr>calls := tr\<rparr>))"

section \<open>The driver object\<close>

datatype key_direction = ltr | rtl

record StreamDeckProperties =
  MODEL :: string
  COLUMNS :: nat
  ROWS :: nat
  ICON_SIZE :: nat
  KEY_DIRECTION :: key_direction
  KEY_DATA_OFFSET :: nat

text \<open>Optional fields are options; \<^verbatim>\<open>jpegOptions\<close> is not read by the base class.\<close>

record OpenStreamDeckOptions =
  useOriginalKeyOrder :: "bool option"
  resetToLogoOnExit :: "bool option"

text \<open>
  \<^verbatim>\<open>FillImageOptions\<close>: the format tag is a string at run time; \<open>None\<close> is an options
  object without the field, which \<^verbatim>\<open>options?.format ?? 'rgb'\<close> tolerates.
\<close>

record FillImageOptions =
  format :: "string option"

record InternalFillImageOptions =
  sourceFormat :: string
  offset :: nat
  stride :: nat

text \<open>
  The fields of \<^verbatim>\<open>StreamDeckBase\<close>, and the three abstract methods a concrete model
  supplies.
\<close>

record StreamDeckBase =
  options :: OpenStreamDeckOptions
  device :: HID
  exitHookReleased :: bool
  deviceProperties :: StreamDeckProperties
  keyState :: "int \<rightharpoonup> bool"
  transformKeyIndex :: "int \<Rightarrow> int"
  convertFillImage :: "byte list \<Rightarrow> InternalFillImageOptions \<Rightarrow> byte list"
  getFillImagePacketLength :: nat

definition KEY_COLUMNS :: "StreamDeckBase \<Rightarrow> nat" where
  "KEY_COLUMNS this = COLUMNS (deviceProperties this)"

definition KEY_ROWS :: "StreamDeckBase \<Rightarrow> nat" where
  "KEY_ROWS this = ROWS (deviceProperties this)"

definition NUM_KEYS :: "StreamDeckBase \<Rightarrow> nat" where
  "NUM_KEYS this = KEY_COLUMNS this * KEY_ROWS this"

definition ICON_SIZE_of :: "StreamDeckBase \<Rightarrow> nat" where
  "ICON_SIZE_of this = ICON_SIZE (deviceProperties this)"

definition ICON_PIXELS :: "StreamDeckBase \<Rightarrow> nat" where
  "ICON_PIXELS this = ICON_SIZE_of this * ICON_SIZE_of this"

definition ICON_BYTES :: "StreamDeckBase \<Rightarrow> nat" where
  "ICON_BYTES this = ICON_PIXELS this * 3"

text \<open>The constructor: \<^verbatim>\<open>new Array(NUM_KEYS).fill(false)\<close> and a fresh handle.\<close>

definition new_keyState :: "nat \<Rightarrow> (int \<rightharpoonup> bool)" where
  "new_keyState n = (\<lambda>i. if 0 \<le> i \<and> i < int n then Some False else None)"

definition new_StreamDeckBase ::
    "(hid_call list \<Rightarrow> bool) \<Rightarrow> OpenStreamDeckOptions \<Rightarrow> StreamDeckProperties \<Rightarrow>
     (int \<Rightarrow> int) \<Rightarrow> (byte list \<Rightarrow> InternalFillImageOptions \<Rightarrow> byte list) \<Rightarrow> nat \<Rightarrow>
     StreamDeckBase" where
  "new_StreamDeckBase env opts properties transform convert packetLength =
     \<lparr> options = opts,
       device = \<lparr> calls = [], throws = env \<rparr>,
       exitHookReleased = False,
       deviceProperties = properties,
       keyState = new_keyState (COLUMNS properties * ROWS properties),
       transformKeyIndex = transform,
       convertFillImage = convert,
       getFillImagePacketLength = packetLength \<rparr>"

text \<open>A call on \<^verbatim>\<open>this.device\<close>.\<close>

definition device_call :: "hid_call \<Rightarrow> StreamDeckBase \<Rightarrow> (error + unit) \<times> StreamDeckBase" where
  "device_call c this =
     (case hid_call c (device this) of (r, d) \<Rightarrow> (r, this\<lparr>device := d\<rparr>))"

text \<open>A \<^verbatim>\<open>for\<close> loop whose body may throw: the first throw ends it.\<close>

fun for_each ::
    "'a list \<Rightarrow> ('a \<Rightarrow> 's \<Rightarrow> (error + unit) \<times> 's) \<Rightarrow> 's \<Rightarrow> (error + unit) \<times> 's" where
  "for_each [] body s = (Inr (), s)"
| "for_each (x # xs) body s =
     (case body x s of
        (Inl e, s') \<Rightarrow> (Inl e, s')
      | (Inr _, s') \<Rightarrow> for_each xs body s')"

subsection \<open>Validation\<close>

definition checkValidKeyIndex :: "StreamDeckBase \<Rightarrow> int \<Rightarrow> error + unit" where
  "checkValidKeyIndex this keyIndex =
     (if keyIndex < 0 \<or> keyIndex \<ge> int (NUM_KEYS this)
      then Inl (InvalidKeyIndex (int (NUM_KEYS this) - 1)) else Inr ())"

definition checkRGBValue :: "int \<Rightarrow> error + unit" where
  "checkRGBValue v = (if v < 0 \<or> v > 255 then Inl InvalidRGBValue else Inr ())"

definition checkSourceFormat :: "string \<Rightarrow> error + unit" where
  "checkSourceFormat fmt =
     (if fmt = ''rgb'' \<or> fmt = ''rgba'' \<or> fmt = ''bgr'' \<or> fmt = ''bgra'' then Inr ()
      else Inl (UnknownFormat fmt))"

subsection \<open>Filling keys\<close>

text \<open>
  \<^verbatim>\<open>Buffer.from(array)\<close> keeps each entry modulo 256;
  \<^verbatim>\<open>Buffer.alloc(size, fill)\<close> repeats the fill pattern up to the size.
\<close>

definition buffer_from :: "int list \<Rightarrow> byte list" where
  "buffer_from xs = map word_of_int xs"

definition buffer_alloc_fill :: "nat \<Rightarrow> byte list \<Rightarrow> byte list" where
  "buffer_alloc_fill n pat =
     (if pat = [] then replicate n 0 else take n (concat (replicate n pat)))"

definition fillImageRange ::
    "StreamDeckBase \<Rightarrow> int \<Rightarrow> byte list \<Rightarrow> InternalFillImageOptions \<Rightarrow>
     (error + unit) \<times> StreamDeckBase" where
  "fillImageRange this keyIndex imageBuffer sourceOptions =
     (case checkValidKeyIndex this keyIndex of
        Inl e \<Rightarrow> (Inl e, this)
      | Inr _ \<Rightarrow>
          (let byteBuffer = convertFillImage this imageBuffer sourceOptions
           in case generateFillImageWrites (getFillImagePacketLength this) keyIndex byteBuffer of
                Inl e \<Rightarrow> (Inl e, this)
              | Inr packets \<Rightarrow> for_each packets (\<lambda>packet. device_call (Write packet)) this))"

definition fillColor ::
    "StreamDeckBase \<Rightarrow> int \<Rightarrow> int \<Rightarrow> int \<Rightarrow> int \<Rightarrow> (error + unit) \<times> StreamDeckBase" where
  "fillColor this keyIndex r g b =
     (case and_then (checkValidKeyIndex this keyIndex) (\<lambda>_.
           and_then (checkRGBValue r) (\<lambda>_.
           and_then (checkRGBValue g) (\<lambda>_.
           checkRGBValue b))) of
        Inl e \<Rightarrow> (Inl e, this)
      | Inr _ \<Rightarrow>
          (let pixels = buffer_alloc_fill (ICON_BYTES this) (buffer_from [r, g, b]);
               keyIndex2 = transformKeyIndex this keyIndex
           in fillImageRange this keyIndex2 pixels
                \<lparr> sourceFormat = ''rgb'', offset = 0, stride = ICON_SIZE_of this * 3 \<rparr>))"

text \<open>\<^verbatim>\<open>options?.format ?? 'rgb'\<close>\<close>

definition format_or_rgb :: "FillImageOptions option \<Rightarrow> string" where
  "format_or_rgb opts =
     (case opts of
        None \<Rightarrow> ''rgb''
      | Some opts' \<Rightarrow> (case format opts' of None \<Rightarrow> ''rgb'' | Some f \<Rightarrow> f))"

definition fillImage ::
    "StreamDeckBase \<Rightarrow> int \<Rightarrow> byte list \<Rightarrow> FillImageOptions option \<Rightarrow>
     (error + unit) \<times> StreamDeckBase" where
  "fillImage this keyIndex imageBuffer opts =
     (case checkValidKeyIndex this keyIndex of
        Inl e \<Rightarrow> (Inl e, this)
      | Inr _ \<Rightarrow>
          (let srcFormat = format_or_rgb opts
           in case checkSourceFormat srcFormat of
                Inl e \<Rightarrow> (Inl e, this)
              | Inr _ \<Rightarrow>
                  (let imageSize = ICON_PIXELS this * length srcFormat
                   in if length imageBuffer \<noteq> imageSize
                      then (Inl (InvalidImageLength (int imageSize) (int (length imageBuffer))), this)
                      else
                        (let keyIndex2 = transformKeyIndex this keyIndex
                         in fillImageRange this keyIndex2 imageBuffer
                              \<lparr> sourceFormat = srcFormat, offset = 0,
                                stride = ICON_SIZE_of this * length srcFormat \<rparr>))))"

definition fillPanel ::
    "StreamDeckBase \<Rightarrow> byte list \<Rightarrow> FillImageOptions option \<Rightarrow>
     (error + unit) \<times> StreamDeckBase" where
  "fillPanel this imageBuffer opts =
     (let srcFormat = format_or_rgb opts
      in case checkSourceFormat srcFormat of
           Inl e \<Rightarrow> (Inl e, this)
         | Inr _ \<Rightarrow>
             (let imageSize = ICON_PIXELS this * length srcFormat * NUM_KEYS this
              in if length imageBuffer \<noteq> imageSize
                 then (Inl (InvalidImageLength (int imageSize) (int (length imageBuffer))), this)
                 else
                   (let iconSize = ICON_SIZE_of this * length srcFormat;
                        stride' = iconSize * KEY_COLUMNS this
                    in for_each [0..<KEY_ROWS this] (\<lambda>row.
                         let rowOffset = stride' * row * ICON_SIZE_of this
                         in for_each [0..<KEY_COLUMNS this] (\<lambda>column this'.
                              let index0 = int row * int (KEY_COLUMNS this');
                                  index =
                                    (if KEY_DIRECTION (deviceProperties this') = ltr
                                     then index0 + int column
                                     else index0 + (int (KEY_COLUMNS this') - int column - 1));
                                  colOffset = column * iconSize
                              in fillImageRange this' index imageBuffer
                                   \<lparr> sourceFormat = srcFormat, offset = rowOffset + colOffset,
                                     stride = stride' \<rparr>)) this)))"

definition clearKey :: "StreamDeckBase \<Rightarrow> int \<Rightarrow> (error + unit) \<times> StreamDeckBase" where
  "clearKey this keyIndex =
     (case checkValidKeyIndex this keyIndex of
        Inl e \<Rightarrow> (Inl e, this)
      | Inr _ \<Rightarrow> fillColor this keyIndex 0 0 0)"

definition clearAllKeys :: "StreamDeckBase \<Rightarrow> (error + unit) \<times> StreamDeckBase" where
  "clearAllKeys this =
     for_each [0..<NUM_KEYS this] (\<lambda>keyIndex this'. clearKey this' (int keyIndex)) this"

subsection \<open>Brightness, reset, close\<close>

definition setBrightness :: "StreamDeckBase \<Rightarrow> int \<Rightarrow> (error + unit) \<times> StreamDeckBase" where
  "setBrightness this percentage =
     (if percentage < 0 \<or> percentage > 100 then (Inl InvalidBrightness, this)
      else
        (let brightnessCommandBuffer = buffer_from
               [0x05, 0x55, 0xaa, 0xd1, 0x01, percentage, 0x00, 0x00,
                0x00, 0x00, 0x00, 0x00, 0x00, 0x00, 0x00, 0x00,
                0x00]
         in device_call (SendFeatureReport brightnessCommandBuffer) this))"

definition resetToLogo :: "StreamDeckBase \<Rightarrow> (error + unit) \<times> StreamDeckBase" where
  "resetToLogo this =
     (let resetCommandBuffer = buffer_from
            [0x0B, 0x63, 0x00, 0x00, 0x00, 0x00, 0x00, 0x00,
             0x00, 0x00, 0x00, 0x00, 0x00, 0x00, 0x00, 0x00,
             0x00]
      in device_call (SendFeatureReport resetCommandBuffer) this)"

definition close :: "StreamDeckBase \<Rightarrow> (error + unit) \<times> StreamDeckBase" where
  "close this =
     (let this1 = this\<lparr>exitHookReleased := True\<rparr>
      in case (if resetToLogoOnExit (options this1) = Some True then resetToLogo this1
               else (Inr (), this1)) of
           (Inl e, this2) \<Rightarrow> (Inl e, this2)
         | (Inr _, this2) \<Rightarrow> device_call Close this2)"

text \<open>
  The callback the constructor registers with the exit hook:
  \<^verbatim>\<open>try { this.close() } catch (e) { }\<close>. This is the one place where an error
  thrown by \<^verbatim>\<open>close()\<close> is ignored.
\<close>

definition exitHook_callback :: "StreamDeckBase \<Rightarrow> StreamDeckBase" where
  "exitHook_callback this = (case close this of (_, this') \<Rightarrow> this')"

section \<open>The input state tracker\<close>

text \<open>
  The \<^verbatim>\<open>'data'\<close> listener installed by the constructor. A read outside a buffer or
  outside the key state array is \<^verbatim>\<open>undefined\<close> (\<open>None\<close>);
  \<^verbatim>\<open>Boolean(undefined)\<close> is false, and a boolean is never \<^verbatim>\<open>===\<close> to
  \<^verbatim>\<open>undefined\<close>. The key state array is a map from index to value, as a JavaScript
  array is. The events passed to \<^verbatim>\<open>emit\<close> are returned in order.
\<close>

datatype key_event = down int | up int

definition buffer_slice :: "byte list \<Rightarrow> int \<Rightarrow> int \<Rightarrow> byte list" where
  "buffer_slice buf start stop =
     (let len = int (length buf);
          s = (if start < 0 then max (len + start) 0 else min start len);
          e = (if stop < 0 then max (len + stop) 0 else min stop len)
      in if e \<le> s then [] else take (nat (e - s)) (drop (nat s) buf))"

definition buffer_at :: "byte list \<Rightarrow> nat \<Rightarrow> byte option" where
  "buffer_at buf i = (if i < length buf then Some (buf ! i) else None)"

definition js_Boolean :: "byte option \<Rightarrow> bool" where
  "js_Boolean v = (case v of None \<Rightarrow> False | Some x \<Rightarrow> x \<noteq> 0)"

text \<open>
  \<^verbatim>\<open>data.slice(KEY_DATA_OFFSET, data.length - 1)\<close>, \<^verbatim>\<open>Boolean(data[i])\<close>, and the
  event emitted for key index \<open>keyIndex\<close>.
\<close>

definition report_keys :: "StreamDeckBase \<Rightarrow> byte list \<Rightarrow> byte list" where
  "report_keys this data0 =
     buffer_slice data0 (int (KEY_DATA_OFFSET (deviceProperties this))) (int (length data0) - 1)"

definition keyPressed_at :: "byte list \<Rightarrow> nat \<Rightarrow> bool" where
  "keyPressed_at data i = js_Boolean (buffer_at data i)"

definition key_event_for :: "bool \<Rightarrow> int \<Rightarrow> key_event" where
  "key_event_for keyPressed keyIndex = (if keyPressed then down keyIndex else up keyIndex)"

text \<open>One turn of the loop over \<open>i\<close>, on the key state array and the events emitted so far.\<close>

definition data_step ::
    "StreamDeckBase \<Rightarrow> byte list \<Rightarrow> nat \<Rightarrow> (int \<rightharpoonup> bool) \<times> key_event list \<Rightarrow>
     (int \<rightharpoonup> bool) \<times> key_event list" where
  "data_step this data i st =
     (case st of (ks, emitted) \<Rightarrow>
        (let keyPressed = keyPressed_at data i;
             keyIndex = transformKeyIndex this (int i);
             stateChanged = (Some keyPressed \<noteq> ks keyIndex)
         in if stateChanged
            then (ks(keyIndex \<mapsto> keyPressed), emitted @ [key_event_for keyPressed keyIndex])
            else (ks, emitted)))"

definition on_data :: "StreamDeckBase \<Rightarrow> byte list \<Rightarrow> key_event list \<times> StreamDeckBase" where
  "on_data this data0 =
     (let data = report_keys this data0
      in case fold (data_step this data) [0..<NUM_KEYS this] (keyState this, []) of
           (ks, emitted) \<Rightarrow> (emitted, this\<lparr>keyState := ks\<rparr>))"

text \<open>The key index an event carries.\<close>

definition event_key :: "key_event \<Rightarrow> int" where
  "event_key e = (case e of down k \<Rightarrow> k | up k \<Rightarrow> k)"

section \<open>Closed form of the packet sequence\<close>

text \<open>
  Used in the proofs only: the number of parts of a buffer of \<open>len\<close> bytes at \<open>M\<close>
  payload bytes per packet, and the bytes of the packet with part index \<open>j\<close>.
\<close>

definition num_parts :: "nat \<Rightarrow> nat \<Rightarrow> nat" where
  "num_parts M len = (len + M - 1) div M"

definition packet_layout :: "nat \<Rightarrow> int \<Rightarrow> byte list \<Rightarrow> nat \<Rightarrow> byte list" where
  "packet_layout P k buf j =
     (let M = P - 16; chunk = take M (drop (j * M) buf)
      in [0x02, 0x01, word_of_int (int j mod 256), word_of_int (int j div 256),
          (if length buf - j * M \<le> M then 1 else 0), word_of_int (k + 1)]
         @ replicate 10 0 @ chunk @ replicate (M - length chunk) 0)"

section \<open>A small device for concrete runs\<close>

text \<open>
  Two keys in one row, ordered right to left (the index transform mirrors the column, as
  the models with \<^verbatim>\<open>KEY_DIRECTION = 'rtl'\<close> do), icons of one pixel, packets of 20
  bytes (4 payload bytes), one skipped byte at the start of an input report, and a
  converter that passes the addressed icon through unchanged.
\<close>

definition example_properties :: StreamDeckProperties where
  "example_properties =
     \<lparr> MODEL = ''example'', COLUMNS = 2, ROWS = 1, ICON_SIZE = 1,
       KEY_DIRECTION = rtl, KEY_DATA_OFFSET = 1 \<rparr>"

definition example_transform :: "int \<Rightarrow> int" where
  "example_transform keyIndex = keyIndex - keyIndex mod 2 + (2 - keyIndex mod 2 - 1)"

definition example_convert :: "byte list \<Rightarrow> InternalFillImageOptions \<Rightarrow> byte list" where
  "example_convert imageBuffer sourceOptions =
     take (length (sourceFormat sourceOptions)) (drop (offset sourceOptions) imageBuffer)"

definition example_deck :: "(hid_call list \<Rightarrow> bool) \<Rightarrow> bool option \<Rightarrow> StreamDeckBase" where
  "example_deck env reset =
     new_StreamDeckBase env \<lparr> useOriginalKeyOrder = None, resetToLogoOnExit = reset \<rparr>
       example_properties example_transform example_convert 20"

text \<open>
  Two transports: one that never throws, and one on which every feature report throws
  (and nothing else does). \<open>reset_report\<close> is the buffer \<^verbatim>\<open>resetToLogo\<close> sends.
\<close>

definition never_throws :: "hid_call list \<Rightarrow> bool" where
  "never_throws tr = False"

definition feature_reports_throw :: "hid_call list \<Rightarrow> bool" where
  "feature_reports_throw tr = (case last tr of SendFeatureReport _ \<Rightarrow> True | _ \<Rightarrow> False)"

definition reset_report :: "byte list" where
  "reset_report = [0x0B, 0x63, 0, 0, 0, 0, 0, 0, 0, 0, 0, 0, 0, 0, 0, 0, 0]"

section \<open>The framer computes the closed form\<close>

lemma replicate_6: "replicate (6 + n) x = x # x # x # x # x # x # replicate n x"
  by (simp add: numeral_eq_Suc)

lemma header_ok_aux:
  assumes "0 \<le> k + 1" "k + 1 \<le> 255" "0 \<le> j" "j \<le> 65535"
  shows "writeFillImageCommandHeader (replicate (6 + n) 0) k j isLast bc =
           Inr ([0x02, 0x01, word_of_int (j mod 256), word_of_int (j div 256),
                 (if isLast then 1 else 0), word_of_int (k + 1)] @ replicate n 0)"
  using assms
  by (simp add: replicate_6 writeFillImageCommandHeader_def and_then_def
        writeUInt8_def writeUInt16LE_def)

lemma header_ok:
  assumes "0 \<le> k + 1" "k + 1 \<le> 255" "j \<le> 65535"
  shows "writeFillImageCommandHeader (replicate (16 + M) 0) k (int j) isLast bc =
           Inr ([0x02, 0x01, word_of_int (int j mod 256), word_of_int (int j div 256),
                 (if isLast then 1 else 0), word_of_int (k + 1)] @ replicate 10 0 @ replicate M 0)"
proof -
  have "16 + M = 6 + (10 + M)" by simp
  then show ?thesis
    using header_ok_aux [of k "int j" "10 + M" isLast bc] assms
    by (simp add: replicate_add del: replicate_append_same)
qed

lemma copy_ok:
  assumes "length h = 16" "nb \<le> M" "off + nb \<le> length buf" "0 < nb"
  shows "buffer_copy buf (h @ replicate M 0) 16 (int off) (int off + int nb) =
           Inr (h @ take nb (drop off buf) @ replicate (M - nb) 0)"
  using assms by (simp add: buffer_copy_def Let_def min_def)

lemma loop_done: "fillImageLoop P k buf part 0 result = Inr result"
  by (subst fillImageLoop.simps) simp

lemma loop_step:
  assumes "0 < M" "0 \<le> k + 1" "k + 1 \<le> 255" "part \<le> 65535" "part * M < length buf"
  shows "fillImageLoop (16 + M) k buf part (int (length buf) - int (part * M)) result =
         fillImageLoop (16 + M) k buf (part + 1)
            (int (length buf) - int (part * M) - min (int (length buf) - int (part * M)) (int M))
            (result @ [packet_layout (16 + M) k buf part])"
proof -
  define off where "off = part * M"
  have off_lt: "off < length buf" using assms(5) by (simp add: off_def)
  define r where "r = length buf - off"
  have r3: "off + r = length buf" unfolding r_def using off_lt by arith
  have r2: "0 < r" unfolding r_def using off_lt by arith
  have r1: "int (length buf) - int off = int r" using r3 by presburger
  define nb where "nb = min r M"
  have nb1: "min (int r) (int M) = int nb" unfolding nb_def by simp
  have nb2: "0 < nb" unfolding nb_def using r2 assms(1) by simp
  have nb3: "nb \<le> M" unfolding nb_def by simp
  have nb4: "off + nb \<le> length buf" unfolding nb_def using r3 by simp
  have off': "int (length buf) - int r = int off" using r3 by presburger
  have ldrop: "length (drop off buf) = r" by (simp add: r_def)
  have chunk: "take nb (drop off buf) = take M (drop off buf)"
    unfolding nb_def using ldrop by (cases "r \<le> M") (simp_all add: min_def)
  have len_chunk: "length (take M (drop off buf)) = nb"
    unfolding nb_def using ldrop by (cases "r \<le> M") (simp_all add: min_def)
  have last_flag: "(int r \<le> int M) = (length buf - off \<le> M)" by (simp add: r_def)
  let ?h = "[0x02, 0x01, word_of_int (int part mod 256), word_of_int (int part div 256),
                 (if int r \<le> int M then 1 else 0), word_of_int (k + 1)] @ replicate 10 0"
  have hl: "length ?h = 16" by simp
  have M_eq: "int (16 + M) - int 16 = int M" by simp
  have pos: "(0 < int r) = True" using r2 by simp
  have cp: "buffer_copy buf (?h @ replicate M 0) 16 (int off) (int off + int nb) =
           Inr (?h @ take nb (drop off buf) @ replicate (M - nb) 0)"
    using copy_ok [OF hl nb3 nb4 nb2] .
  have "packet_layout (16 + M) k buf part =
          [0x02, 0x01, word_of_int (int part mod 256), word_of_int (int part div 256),
           (if length buf - off \<le> M then 1 else 0), word_of_int (k + 1)] @ replicate 10 0
          @ take M (drop off buf) @ replicate (M - length (take M (drop off buf))) 0"
    by (simp add: packet_layout_def off_def)
  then have pk: "?h @ take nb (drop off buf) @ replicate (M - nb) 0 = packet_layout (16 + M) k buf part"
    unfolding len_chunk chunk last_flag by simp
  have hd: "writeFillImageCommandHeader (replicate (16 + M) 0) k (int part) (int r \<le> int M) (int nb) =
           Inr (?h @ replicate M 0)"
    using header_ok [OF assms(2,3,4)] by simp
  have "fillImageLoop (16 + M) k buf part (int r) result =
         fillImageLoop (16 + M) k buf (part + 1) (int r - int nb)
            (result @ [packet_layout (16 + M) k buf part])"
    apply (subst fillImageLoop.simps)
    apply (simp only: Let_def getFillImageCommandHeaderLength_def M_eq nb1 hd off' cp pk
             sum.case pos if_True)
    done
  then show ?thesis
    unfolding off_def [symmetric] r1 nb1 .
qed


lemma num_parts_0: "0 < M \<Longrightarrow> num_parts M r = 0 \<Longrightarrow> r = 0"
  by (cases r) (simp_all add: num_parts_def div_eq_0_iff)

lemma num_parts_small: "0 < M \<Longrightarrow> 0 < r \<Longrightarrow> r \<le> M \<Longrightarrow> num_parts M r = 1"
  unfolding num_parts_def by (rule div_nat_eqI) simp_all

lemma num_parts_big: "0 < M \<Longrightarrow> M < r \<Longrightarrow> num_parts M r = Suc (num_parts M (r - M))"
proof -
  assume a: "0 < M" "M < r"
  have "(r + M - 1) div M = Suc ((r + M - 1 - M) div M)"
    using a by (intro le_div_geq) simp_all
  moreover have "r + M - 1 - M = r - M + M - 1" using a by simp
  ultimately show ?thesis by (simp add: num_parts_def)
qed

lemma loop_closed:
  assumes M: "0 < M" and k: "0 \<le> k + 1" "k + 1 \<le> 255"
  shows "num_parts M r = n \<Longrightarrow> part * M + r = length buf \<Longrightarrow> part + n \<le> 65536 \<Longrightarrow>
         fillImageLoop (16 + M) k buf part (int r) result =
           Inr (result @ map (packet_layout (16 + M) k buf) [part..<part + n])"
proof (induction n arbitrary: part r result)
  case 0
  then have "r = 0" using M num_parts_0 by blast
  then show ?case by (simp add: loop_done)
next
  case (Suc n)
  have rpos: "0 < r" using Suc.prems(1) M by (cases r) (simp_all add: num_parts_def)
  have part: "part \<le> 65535" using Suc.prems(3) by simp
  have lt: "part * M < length buf" using Suc.prems(2) rpos by arith
  have rem: "int (length buf) - int (part * M) = int r" using Suc.prems(2) by presburger
  note step = loop_step [OF M k part lt, of result, unfolded rem]
  show ?case
  proof (cases "r \<le> M")
    case True
    then have "n = 0" using num_parts_small [OF M rpos] Suc.prems(1) by simp
    moreover have "int r - min (int r) (int M) = 0" using True by simp
    ultimately show ?thesis using step by (simp add: loop_done)
  next
    case False
    then have big: "M < r" by simp
    have n: "num_parts M (r - M) = n" using num_parts_big [OF M big] Suc.prems(1) by simp
    have inv: "(part + 1) * M + (r - M) = length buf" using Suc.prems(2) big by (simp add: algebra_simps)
    have bound: "part + 1 + n \<le> 65536" using Suc.prems(3) by simp
    have r': "int r - min (int r) (int M) = int (r - M)" using big by simp
    have "[part..<part + Suc n] = part # [part + 1..<part + 1 + n]"
      by (simp add: upt_conv_Cons)
    then show ?thesis
      using step Suc.IH [OF n inv bound] unfolding r' by simp
  qed
qed

lemma generateFillImageWrites_closed:
  assumes "0 < M" "0 \<le> k + 1" "k + 1 \<le> 255" "num_parts M (length buf) \<le> 65536"
  shows "generateFillImageWrites (16 + M) k buf =
           Inr (map (packet_layout (16 + M) k buf) [0..<num_parts M (length buf)])"
  using loop_closed [OF assms(1,2,3) refl, of 0 "length buf" buf "[]"] assms(4)
  by (simp add: generateFillImageWrites_def)


lemma header_Inr:
  assumes "writeFillImageCommandHeader (replicate (16 + M) 0) k (int part) isLast bc = Inr b"
  shows "0 \<le> k + 1 \<and> k + 1 \<le> 255 \<and> part \<le> 65535"
  using assms
  by (auto simp: writeFillImageCommandHeader_def and_then_def writeUInt8_def writeUInt16LE_def
           split: sum.splits if_splits)

lemma loop_Inr_header:
  assumes "fillImageLoop (16 + M) k buf part (int r) result = Inr pkts" "0 < r"
  shows "0 \<le> k + 1 \<and> k + 1 \<le> 255 \<and> part \<le> 65535"
proof -
  obtain b where "writeFillImageCommandHeader (replicate (16 + M) 0) k (int part)
        (int r \<le> int (16 + M) - int getFillImageCommandHeaderLength)
        (min (int r) (int (16 + M) - int getFillImageCommandHeaderLength)) = Inr b"
    using assms by (subst (asm) fillImageLoop.simps) (auto simp: Let_def split: sum.splits)
  then show ?thesis by (rule header_Inr)
qed

lemma loop_Inr:
  assumes M: "0 < M"
  shows "num_parts M r = n \<Longrightarrow> part * M + r = length buf \<Longrightarrow>
         fillImageLoop (16 + M) k buf part (int r) result = Inr pkts \<Longrightarrow>
         pkts = result @ map (packet_layout (16 + M) k buf) [part..<part + n]
         \<and> (0 < n \<longrightarrow> 0 \<le> k + 1 \<and> k + 1 \<le> 255 \<and> part + n \<le> 65536)"
proof (induction n arbitrary: part r result)
  case 0
  then have "r = 0" using M num_parts_0 by blast
  then show ?case using "0.prems"(3) by (simp add: loop_done)
next
  case (Suc n)
  have rpos: "0 < r" using Suc.prems(1) M by (cases r) (simp_all add: num_parts_def)
  have hdr: "0 \<le> k + 1 \<and> k + 1 \<le> 255 \<and> part \<le> 65535"
    using loop_Inr_header [OF Suc.prems(3) rpos] .
  then have k: "0 \<le> k + 1" "k + 1 \<le> 255" and part: "part \<le> 65535" by simp_all
  have lt: "part * M < length buf" using Suc.prems(2) rpos by arith
  have rem: "int (length buf) - int (part * M) = int r" using Suc.prems(2) by presburger
  note step = loop_step [OF M k part lt, of result, unfolded rem]
  show ?case
  proof (cases "r \<le> M")
    case True
    then have "n = 0" using num_parts_small [OF M rpos] Suc.prems(1) by simp
    moreover have "int r - min (int r) (int M) = 0" using True by simp
    ultimately show ?thesis using step Suc.prems(3) hdr by (simp add: loop_done)
  next
    case False
    then have big: "M < r" by simp
    have n: "num_parts M (r - M) = n" using num_parts_big [OF M big] Suc.prems(1) by simp
    have inv: "(part + 1) * M + (r - M) = length buf" using Suc.prems(2) big by (simp add: algebra_simps)
    have r': "int r - min (int r) (int M) = int (r - M)" using big by simp
    have run: "fillImageLoop (16 + M) k buf (part + 1) (int (r - M))
                 (result @ [packet_layout (16 + M) k buf part]) = Inr pkts"
      using step Suc.prems(3) unfolding r' by simp
    have npos: "0 < n" using n big M by (cases n) (auto dest: num_parts_0)
    have upt: "[part..<part + Suc n] = part # [part + 1..<part + 1 + n]"
      by (simp add: upt_conv_Cons)
    show ?thesis
      using Suc.IH [OF n inv run] npos hdr unfolding upt by simp
  qed
qed

lemma generateFillImageWrites_Inr:
  assumes "0 < M" "generateFillImageWrites (16 + M) k buf = Inr pkts"
  shows "pkts = map (packet_layout (16 + M) k buf) [0..<num_parts M (length buf)]"
    and "buf \<noteq> [] \<Longrightarrow> 0 \<le> k + 1 \<and> k + 1 \<le> 255 \<and> num_parts M (length buf) \<le> 65536"
proof -
  note L = loop_Inr [OF assms(1) refl, of 0 "length buf" buf k "[]" pkts]
  have run: "fillImageLoop (16 + M) k buf 0 (int (length buf)) [] = Inr pkts"
    using assms(2) by (simp add: generateFillImageWrites_def)
  show "pkts = map (packet_layout (16 + M) k buf) [0..<num_parts M (length buf)]"
    using L run by simp
  assume "buf \<noteq> []"
  then have "0 < num_parts M (length buf)"
    using assms(1) num_parts_0 [of M "length buf"] by (cases "num_parts M (length buf)") auto
  then show "0 \<le> k + 1 \<and> k + 1 \<le> 255 \<and> num_parts M (length buf) \<le> 65536"
    using L run by simp
qed


lemma num_parts_cover: "0 < M \<Longrightarrow> len \<le> num_parts M len * M"
proof -
  assume M: "0 < M"
  have "len + M - 1 < M + (len + M - 1) div M * M"
    using M by (rule dividend_less_div_times)
  then show ?thesis using M by (simp add: num_parts_def)
qed

lemma num_parts_index: "0 < M \<Longrightarrow> j < num_parts M len \<Longrightarrow> j * M < len"
proof -
  assume M: "0 < M" and j: "j < num_parts M len"
  have "Suc j * M \<le> num_parts M len * M" using j by (intro mult_le_mono1) simp
  also have "\<dots> \<le> len + M - 1" by (simp add: num_parts_def)
  finally have "j * M + M \<le> len + M - 1" by simp
  then show ?thesis using M by arith
qed

lemma num_parts_bound: "0 < M \<Longrightarrow> len \<le> 65536 * M \<Longrightarrow> num_parts M len \<le> 65536"
proof -
  assume M: "0 < M" and len: "len \<le> 65536 * M"
  have "len + M - 1 < 65537 * M" using M len by simp
  then have "(len + M - 1) div M < 65537" using M by (simp add: less_mult_imp_div_less)
  then show ?thesis by (simp add: num_parts_def)
qed

lemma packet_layout_length: "length (packet_layout (16 + M) k buf j) = 16 + M"
  by (simp add: packet_layout_def Let_def)

lemma packet_layout_payload:
  "drop 16 (packet_layout (16 + M) k buf j) =
     take M (drop (j * M) buf) @ replicate (M - length (take M (drop (j * M) buf))) 0"
  by (simp add: packet_layout_def Let_def)

lemma packet_layout_header:
  "take 6 (packet_layout (16 + M) k buf j) =
     [0x02, 0x01, word_of_int (int j mod 256), word_of_int (int j div 256),
      (if length buf - j * M \<le> M then 1 else 0), word_of_int (k + 1)]"
  by (simp add: packet_layout_def Let_def)

lemma chunks_concat:
  "concat (map (\<lambda>j. take M (drop (j * M) buf)) [0..<n]) = take (n * M) buf"
proof (induction n)
  case 0
  show ?case by simp
next
  case (Suc n)
  have "take (n * M + M) buf = take (n * M) buf @ take M (drop (n * M) buf)"
    by (rule take_add)
  moreover have "Suc n * M = n * M + M" by simp
  ultimately have "take (Suc n * M) buf = take (n * M) buf @ take M (drop (n * M) buf)"
    by (simp only:)
  then show ?case using Suc by simp
qed

lemma full_payloads:
  assumes "n * M \<le> length buf"
  shows "concat (map (\<lambda>j. drop 16 (packet_layout (16 + M) k buf j)) [0..<n]) = take (n * M) buf"
proof -
  have "\<And>j. j < n \<Longrightarrow> drop 16 (packet_layout (16 + M) k buf j) = take M (drop (j * M) buf)"
  proof -
    fix j assume "j < n"
    then have "Suc j * M \<le> n * M" by (intro mult_le_mono1) simp
    then have "j * M + M \<le> length buf" using assms by simp
    then have "length (take M (drop (j * M) buf)) = M" by simp
    then show "drop 16 (packet_layout (16 + M) k buf j) = take M (drop (j * M) buf)"
      by (simp add: packet_layout_payload)
  qed
  then have "map (\<lambda>j. drop 16 (packet_layout (16 + M) k buf j)) [0..<n] =
             map (\<lambda>j. take M (drop (j * M) buf)) [0..<n]"
    by simp
  then show ?thesis by (simp only: chunks_concat)
qed

lemma payloads_roundtrip:
  assumes M: "0 < M"
  shows "take (length buf)
           (concat (map (\<lambda>j. drop 16 (packet_layout (16 + M) k buf j))
              [0..<num_parts M (length buf)])) = buf"
proof (cases "num_parts M (length buf)")
  case 0
  then have "buf = []" using num_parts_0 [OF M] by auto
  then show ?thesis by simp
next
  case (Suc n)
  have lt: "n * M < length buf" using num_parts_index [OF M, of n "length buf"] Suc by simp
  have cover: "length buf \<le> Suc n * M" using num_parts_cover [OF M, of "length buf"] Suc by simp
  have "concat (map (\<lambda>j. drop 16 (packet_layout (16 + M) k buf j)) [0..<Suc n]) =
          take (n * M) buf @ drop 16 (packet_layout (16 + M) k buf n)"
    using full_payloads [of n M buf k] lt by simp
  also have "\<dots> = take (n * M) buf @ take M (drop (n * M) buf)
                    @ replicate (M - length (take M (drop (n * M) buf))) 0"
    by (simp only: packet_layout_payload)
  also have "take M (drop (n * M) buf) = drop (n * M) buf" using cover by simp
  finally have "concat (map (\<lambda>j. drop 16 (packet_layout (16 + M) k buf j)) [0..<Suc n]) =
          buf @ replicate (M - length (drop (n * M) buf)) 0"
    by simp
  then show ?thesis unfolding Suc by simp
qed

lemma framer_example:
  "generateFillImageWrites 20 0 [1, 2, 3, 4, 5] =
     Inr [[2, 1, 0, 0, 0, 1, 0, 0, 0, 0, 0, 0, 0, 0, 0, 0, 1, 2, 3, 4],
          [2, 1, 1, 0, 1, 1, 0, 0, 0, 0, 0, 0, 0, 0, 0, 0, 5, 0, 0, 0]]"
  by code_simp

lemma uint_byte: "0 \<le> v \<Longrightarrow> v \<le> 255 \<Longrightarrow> uint (word_of_int v :: byte) = v"
  by (simp add: uint_word_of_int_eq take_bit_eq_mod)

lemma uint_le16:
  "j \<le> 65535 \<Longrightarrow>
   uint (word_of_int (int j mod 256) :: byte) + 256 * uint (word_of_int (int j div 256) :: byte) = int j"
  by (simp add: uint_word_of_int_eq take_bit_eq_mod)

lemma split_packet_length:
  assumes "M = P - getFillImageCommandHeaderLength" "0 < M"
  shows "P = 16 + M"
  using assms by (simp add: getFillImageCommandHeaderLength_def)

section \<open>Properties of the packet framer\<close>

text \<open>
  C1 (as amended). With payload capacity \<open>M = P - H > 0\<close>, a key byte \<open>k + 1\<close> that fits
  in a byte and at most 65536 parts, \<^verbatim>\<open>generateFillImageWrites\<close> returns, and it
  returns exactly \<open>ceil(len(bytes) / M)\<close> packets: at least one packet exactly when the
  buffer is not empty.
\<close>

theorem generateFillImageWrites_count:
  assumes "M = P - getFillImageCommandHeaderLength" and "0 < M"
    and "0 \<le> k + 1" and "k + 1 \<le> 255" and "length bytes \<le> 65536 * M"
  shows "\<exists>pkts. generateFillImageWrites P k bytes = Inr pkts
           \<and> length pkts = (length bytes + M - 1) div M
           \<and> (1 \<le> length pkts) = (bytes \<noteq> [])"
proof -
  have P: "P = 16 + M" using assms(1,2) by (rule split_packet_length)
  have n: "num_parts M (length bytes) \<le> 65536" using assms(2,5) by (rule num_parts_bound)
  have run: "generateFillImageWrites P k bytes =
               Inr (map (packet_layout (16 + M) k bytes) [0..<num_parts M (length bytes)])"
    unfolding P using assms(2,3,4) n by (rule generateFillImageWrites_closed)
  have "(1 \<le> num_parts M (length bytes)) = (bytes \<noteq> [])"
  proof (cases "bytes = []")
    case True
    then show ?thesis using assms(2) by (simp add: num_parts_def)
  next
    case False
    then have "0 < length bytes" by simp
    then have "0 < num_parts M (length bytes)"
      using num_parts_0 [OF assms(2), of "length bytes"] by (cases "num_parts M (length bytes)") auto
    then show ?thesis using False by simp
  qed
  then show ?thesis using run by (simp add: num_parts_def)
qed

text \<open>
  C1 as stated fails on the empty buffer: the loop guard \<^verbatim>\<open>remainingBytes > 0\<close> is
  false at once and no packet is built, where \<open>ceil(max(1, 0) / M)\<close> is 1.
\<close>

theorem generateFillImageWrites_count_witness:
  "(4::nat) = 20 - getFillImageCommandHeaderLength \<and> (0::nat) < 4 \<and> (0::int) \<le> 0 + 1
   \<and> (0::int) + 1 \<le> 255 \<and> length [1, 2, 3, 4, 5 :: byte] \<le> 65536 * 4
   \<and> (\<exists>pkts. generateFillImageWrites 20 0 [1, 2, 3, 4, 5] = Inr pkts \<and> length pkts = 2)"
  using generateFillImageWrites_count [of 4 20 0 "[1, 2, 3, 4, 5]"]
  by (auto simp: getFillImageCommandHeaderLength_def)

theorem generateFillImageWrites_empty_counterexample:
  "generateFillImageWrites 1024 0 [] = Inr []
   \<and> (max 1 (length ([] :: byte list)) + (1024 - getFillImageCommandHeaderLength) - 1)
        div (1024 - getFillImageCommandHeaderLength) = 1"
  by (simp add: generateFillImageWrites_def fillImageLoop.simps getFillImageCommandHeaderLength_def)

text \<open>
  C4. In the packet sequence the framer returns, every packet has the packet length \<open>P\<close>;
  every packet but the last carries \<open>M\<close> bytes of the buffer as its payload; the last
  packet carries the rest of the buffer followed by zeros; and the payloads, concatenated
  and cut to the length of the buffer, are the buffer.
\<close>

theorem generateFillImageWrites_roundtrip:
  assumes "H = getFillImageCommandHeaderLength" and "M = P - H" and "0 < M"
    and "generateFillImageWrites P k bytes = Inr pkts"
  shows "(\<forall>p \<in> set pkts. length p = P)
       \<and> (\<forall>j. Suc j < length pkts \<longrightarrow>
             Suc j * M \<le> length bytes \<and> drop H (pkts ! j) = take M (drop (j * M) bytes))
       \<and> (pkts \<noteq> [] \<longrightarrow>
             length bytes \<le> length pkts * M \<and>
             drop H (last pkts) =
               drop ((length pkts - 1) * M) bytes @ replicate (length pkts * M - length bytes) 0)
       \<and> take (length bytes) (concat (map (drop H) pkts)) = bytes"
proof -
  have H: "H = 16" using assms(1) by (simp add: getFillImageCommandHeaderLength_def)
  have P: "P = 16 + M" using assms(2,3) unfolding assms(1) by (rule split_packet_length)
  define n where "n = num_parts M (length bytes)"
  have pkts: "pkts = map (packet_layout (16 + M) k bytes) [0..<n]"
    unfolding n_def using assms(3) assms(4) [unfolded P] by (rule generateFillImageWrites_Inr(1))
  have len: "length pkts = n" by (simp add: pkts)
  have nth: "\<And>j. j < n \<Longrightarrow> pkts ! j = packet_layout (16 + M) k bytes j" by (simp add: pkts)
  have cover: "length bytes \<le> n * M" unfolding n_def using assms(3) by (rule num_parts_cover)
  have c1: "\<forall>p \<in> set pkts. length p = P"
    by (auto simp: pkts P packet_layout_length)
  have c2: "\<forall>j. Suc j < length pkts \<longrightarrow>
             Suc j * M \<le> length bytes \<and> drop H (pkts ! j) = take M (drop (j * M) bytes)"
  proof (intro allI impI)
    fix j assume j: "Suc j < length pkts"
    then have "Suc j * M < length bytes"
      using num_parts_index [OF assms(3), of "Suc j" "length bytes"] by (simp add: len n_def)
    then have full: "Suc j * M \<le> length bytes" by simp
    then have "j * M + M \<le> length bytes" by simp
    then have "length (take M (drop (j * M) bytes)) = M" by simp
    then have "drop 16 (packet_layout (16 + M) k bytes j) = take M (drop (j * M) bytes)"
      by (simp add: packet_layout_payload)
    then show "Suc j * M \<le> length bytes \<and> drop H (pkts ! j) = take M (drop (j * M) bytes)"
      using full j nth [of j] by (simp add: H len)
  qed
  have c3: "pkts \<noteq> [] \<longrightarrow>
             length bytes \<le> length pkts * M \<and>
             drop H (last pkts) =
               drop ((length pkts - 1) * M) bytes @ replicate (length pkts * M - length bytes) 0"
  proof
    assume ne: "pkts \<noteq> []"
    then have npos: "0 < n" using len by (cases n) auto
    then obtain m where m: "n = Suc m" by (cases n) auto
    have lt: "m * M < length bytes"
      using num_parts_index [OF assms(3), of m "length bytes"] m by (simp add: n_def)
    have last: "last pkts = packet_layout (16 + M) k bytes m"
      using ne nth [of m] m by (simp add: last_conv_nth len)
    have tk: "take M (drop (m * M) bytes) = drop (m * M) bytes" using cover m by simp
    have pad: "M - length (drop (m * M) bytes) = Suc m * M - length bytes"
      using lt by simp
    have "drop 16 (last pkts) = drop (m * M) bytes @ replicate (Suc m * M - length bytes) 0"
      unfolding last packet_layout_payload tk pad ..
    then show "length bytes \<le> length pkts * M \<and>
             drop H (last pkts) =
               drop ((length pkts - 1) * M) bytes @ replicate (length pkts * M - length bytes) 0"
      using cover by (simp add: H len m)
  qed
  have "map (drop 16) pkts = map (\<lambda>j. drop 16 (packet_layout (16 + M) k bytes j)) [0..<n]"
    by (simp add: pkts)
  then have c4: "take (length bytes) (concat (map (drop H) pkts)) = bytes"
    unfolding H n_def using payloads_roundtrip [OF assms(3), of bytes k] by simp
  show ?thesis using c1 c2 c3 c4 by blast
qed

theorem generateFillImageWrites_roundtrip_witness:
  "(16::nat) = getFillImageCommandHeaderLength \<and> (4::nat) = 20 - 16 \<and> (0::nat) < 4
   \<and> generateFillImageWrites 20 0 [1, 2, 3, 4, 5] =
         Inr [[2, 1, 0, 0, 0, 1, 0, 0, 0, 0, 0, 0, 0, 0, 0, 0, 1, 2, 3, 4],
              [2, 1, 1, 0, 1, 1, 0, 0, 0, 0, 0, 0, 0, 0, 0, 0, 5, 0, 0, 0]]
   \<and> drop 16 [2, 1, 0, 0, 0, 1, 0, 0, 0, 0, 0, 0, 0, 0, 0, 0, 1, 2, 3, 4 :: byte]
         = take 4 (drop (0 * 4) [1, 2, 3, 4, 5])
   \<and> drop 16 [2, 1, 1, 0, 1, 1, 0, 0, 0, 0, 0, 0, 0, 0, 0, 0, 5, 0, 0, 0 :: byte]
         = drop 4 [1, 2, 3, 4, 5] @ replicate 3 0
   \<and> take 5 (concat (map (drop 16)
         [[2, 1, 0, 0, 0, 1, 0, 0, 0, 0, 0, 0, 0, 0, 0, 0, 1, 2, 3, 4],
          [2, 1, 1, 0, 1, 1, 0, 0, 0, 0, 0, 0, 0, 0, 0, 0, 5, 0, 0, 0]])) = [1, 2, 3, 4, 5 :: byte]"
  using generateFillImageWrites_roundtrip [of 16 4 20 0 "[1, 2, 3, 4, 5]", OF _ _ _ framer_example]
  by (simp add: getFillImageCommandHeaderLength_def framer_example)

text \<open>
  C5. In the packet sequence the framer returns for key \<open>k\<close>, the packet at position
  \<open>j\<close> has byte 0 = 0x02, byte 1 = 0x01, the part index \<open>j\<close> little-endian in bytes 2 and
  3 (so part indices count up from 0), byte 4 = 1 exactly when the bytes remaining when it
  is built, \<open>len(bytes) - j * M\<close>, are at most \<open>M\<close>, and byte 5 = \<open>k + 1\<close>.
\<close>

theorem generateFillImageWrites_headers:
  assumes "M = P - getFillImageCommandHeaderLength" and "0 < M"
    and "generateFillImageWrites P k bytes = Inr pkts" and "j < length pkts"
  shows "pkts ! j ! 0 = 0x02 \<and> pkts ! j ! 1 = 0x01
       \<and> uint (pkts ! j ! 2) + 256 * uint (pkts ! j ! 3) = int j
       \<and> pkts ! j ! 4 = (if int (length bytes) - int (j * M) \<le> int M then 1 else 0)
       \<and> uint (pkts ! j ! 5) = k + 1"
proof -
  have P: "P = 16 + M" using assms(1,2) by (rule split_packet_length)
  define n where "n = num_parts M (length bytes)"
  have pkts: "pkts = map (packet_layout (16 + M) k bytes) [0..<n]"
    unfolding n_def using assms(2) assms(3) [unfolded P] by (rule generateFillImageWrites_Inr(1))
  have jn: "j < n" using assms(4) by (simp add: pkts)
  then have ne: "bytes \<noteq> []" using assms(2) by (auto simp: n_def num_parts_def)
  have rng: "0 \<le> k + 1 \<and> k + 1 \<le> 255 \<and> n \<le> 65536"
    unfolding n_def using assms(2) assms(3) [unfolded P] ne by (rule generateFillImageWrites_Inr(2))
  then have j16: "j \<le> 65535" using jn by simp
  have lt: "j * M < length bytes" using num_parts_index [OF assms(2)] jn by (simp add: n_def)
  then have flag: "(int (length bytes) - int (j * M) \<le> int M) = (length bytes - j * M \<le> M)"
    by arith
  have pj: "pkts ! j = packet_layout (16 + M) k bytes j" using jn by (simp add: pkts)
  have hd: "\<And>i. i < 6 \<Longrightarrow> pkts ! j ! i =
     [0x02, 0x01, word_of_int (int j mod 256), word_of_int (int j div 256),
      (if length bytes - j * M \<le> M then 1 else 0), word_of_int (k + 1)] ! i"
    unfolding pj packet_layout_header [symmetric] by simp
  have b0: "pkts ! j ! 0 = 0x02" using hd [of 0] by simp
  have b1: "pkts ! j ! 1 = 0x01" using hd [of 1] by simp
  have b2: "pkts ! j ! 2 = word_of_int (int j mod 256)" using hd [of 2] by simp
  have b3: "pkts ! j ! 3 = word_of_int (int j div 256)" using hd [of 3] by simp
  have b4: "pkts ! j ! 4 = (if length bytes - j * M \<le> M then 1 else 0)" using hd [of 4] by simp
  have b5: "pkts ! j ! 5 = word_of_int (k + 1)" using hd [of 5] by simp
  show ?thesis
    unfolding b0 b1 b2 b3 b4 b5 flag using uint_le16 [OF j16] uint_byte [of "k + 1"] rng by simp
qed

theorem generateFillImageWrites_headers_witness:
  "(4::nat) = 20 - getFillImageCommandHeaderLength \<and> (0::nat) < 4
   \<and> generateFillImageWrites 20 0 [1, 2, 3, 4, 5] =
         Inr [[2, 1, 0, 0, 0, 1, 0, 0, 0, 0, 0, 0, 0, 0, 0, 0, 1, 2, 3, 4],
              [2, 1, 1, 0, 1, 1, 0, 0, 0, 0, 0, 0, 0, 0, 0, 0, 5, 0, 0, 0]]
   \<and> (1::nat) < length [[2, 1, 0, 0, 0, 1, 0, 0, 0, 0, 0, 0, 0, 0, 0, 0, 1, 2, 3, 4],
                         [2, 1, 1, 0, 1, 1, 0, 0, 0, 0, 0, 0, 0, 0, 0, 0, 5, 0, 0, 0 :: byte]]
   \<and> uint ([2, 1, 1, 0, 1, 1, 0, 0, 0, 0, 0, 0, 0, 0, 0, 0, 5, 0, 0, 0 :: byte] ! 2)
       + 256 * uint ([2, 1, 1, 0, 1, 1, 0, 0, 0, 0, 0, 0, 0, 0, 0, 0, 5, 0, 0, 0 :: byte] ! 3) = 1
   \<and> [2, 1, 1, 0, 1, 1, 0, 0, 0, 0, 0, 0, 0, 0, 0, 0, 5, 0, 0, 0 :: byte] ! 4 = 1
   \<and> uint ([2, 1, 1, 0, 1, 1, 0, 0, 0, 0, 0, 0, 0, 0, 0, 0, 5, 0, 0, 0 :: byte] ! 5) = 0 + 1"
  using generateFillImageWrites_headers [of 4 20 0 "[1, 2, 3, 4, 5]", OF _ _ framer_example, of 1]
  by (simp add: getFillImageCommandHeaderLength_def framer_example)

section \<open>Properties of the driver operations\<close>

lemma device_call_eq:
  "device_call c this =
     (if throws (device this) (calls (device this) @ [c]) then Inl HIDError else Inr (),
      this\<lparr>device := (device this)\<lparr>calls := calls (device this) @ [c]\<rparr>\<rparr>)"
  by (simp add: device_call_def hid_call_def Let_def)

lemma resetToLogo_eq: "resetToLogo this = device_call (SendFeatureReport reset_report) this"
  by (simp add: resetToLogo_def buffer_from_def reset_report_def)

lemma clearKey_eq: "clearKey this keyIndex = fillColor this keyIndex 0 0 0"
  by (simp add: clearKey_def fillColor_def and_then_def split: sum.splits)

lemma example_sizes:
  "NUM_KEYS (example_deck env reset) = 2" "ICON_PIXELS (example_deck env reset) = 1"
  "ICON_SIZE_of (example_deck env reset) = 1"
  by (simp_all add: NUM_KEYS_def KEY_COLUMNS_def KEY_ROWS_def ICON_PIXELS_def ICON_SIZE_of_def
        example_deck_def new_StreamDeckBase_def example_properties_def)

lemma example_clearAllKeys:
  "calls (device (snd (clearAllKeys (example_deck never_throws None)))) =
     [Write [2, 1, 0, 0, 1, 2, 0, 0, 0, 0, 0, 0, 0, 0, 0, 0, 0, 0, 0, 0],
      Write [2, 1, 0, 0, 1, 1, 0, 0, 0, 0, 0, 0, 0, 0, 0, 0, 0, 0, 0, 0]]"
  by code_simp

lemma example_fillPanel:
  "calls (device (snd (fillPanel (example_deck never_throws None) [1, 2, 3, 4, 5, 6] None))) =
     [Write [2, 1, 0, 0, 1, 2, 0, 0, 0, 0, 0, 0, 0, 0, 0, 0, 1, 2, 3, 0],
      Write [2, 1, 0, 0, 1, 1, 0, 0, 0, 0, 0, 0, 0, 0, 0, 0, 4, 5, 6, 0]]"
  by code_simp

lemma example_fillImage:
  "calls (device (snd (fillImage (example_deck never_throws None) 0 [7, 8, 9] None))) =
     [Write [2, 1, 0, 0, 1, 2, 0, 0, 0, 0, 0, 0, 0, 0, 0, 0, 7, 8, 9, 0]]"
  by code_simp

text \<open>
  C8. \<^verbatim>\<open>setBrightness(p)\<close> with \<open>p\<close> outside 0..100 throws the range error and leaves
  the object, and with it the trace of transport calls, as it was. With \<open>p\<close> in 0..100
  it makes exactly one transport call, the feature report of the 17 bytes
  05 55 AA D1 01 p 00 .. 00, whose byte 5 reads as \<open>p\<close>; it throws only if that call does.
\<close>

theorem setBrightness_report:
  "(percentage < 0 \<or> 100 < percentage \<longrightarrow>
      setBrightness this percentage = (Inl InvalidBrightness, this))
   \<and> (0 \<le> percentage \<and> percentage \<le> 100 \<longrightarrow>
        (\<exists>p :: byte. uint p = percentage
           \<and> calls (device (snd (setBrightness this percentage))) =
               calls (device this) @
                 [SendFeatureReport [0x05, 0x55, 0xAA, 0xD1, 0x01, p, 0, 0, 0, 0, 0, 0, 0, 0, 0, 0, 0]]
           \<and> fst (setBrightness this percentage) =
               (if throws (device this) (calls (device (snd (setBrightness this percentage))))
                then Inl HIDError else Inr ())))"
proof (intro conjI impI)
  assume "percentage < 0 \<or> 100 < percentage"
  then show "setBrightness this percentage = (Inl InvalidBrightness, this)"
    by (auto simp: setBrightness_def)
next
  assume rng: "0 \<le> percentage \<and> percentage \<le> 100"
  then have u: "uint (word_of_int percentage :: byte) = percentage"
    by (simp add: uint_word_of_int_eq take_bit_eq_mod)
  have run: "setBrightness this percentage =
      device_call (SendFeatureReport
        [0x05, 0x55, 0xAA, 0xD1, 0x01, word_of_int percentage, 0, 0, 0, 0, 0, 0, 0, 0, 0, 0, 0]) this"
    using rng by (simp add: setBrightness_def buffer_from_def Let_def)
  show "\<exists>p :: byte. uint p = percentage
           \<and> calls (device (snd (setBrightness this percentage))) =
               calls (device this) @
                 [SendFeatureReport [0x05, 0x55, 0xAA, 0xD1, 0x01, p, 0, 0, 0, 0, 0, 0, 0, 0, 0, 0, 0]]
           \<and> fst (setBrightness this percentage) =
               (if throws (device this) (calls (device (snd (setBrightness this percentage))))
                then Inl HIDError else Inr ())"
    by (rule exI [of _ "word_of_int percentage"]) (simp add: u run device_call_eq)
qed

theorem setBrightness_report_witness:
  "setBrightness (example_deck never_throws None) 150 =
     (Inl InvalidBrightness, example_deck never_throws None)
   \<and> (0::int) \<le> 50 \<and> (50::int) \<le> 100
   \<and> (\<exists>p :: byte. uint p = 50
         \<and> calls (device (snd (setBrightness (example_deck never_throws None) 50))) =
             [SendFeatureReport [0x05, 0x55, 0xAA, 0xD1, 0x01, p, 0, 0, 0, 0, 0, 0, 0, 0, 0, 0, 0]]
         \<and> fst (setBrightness (example_deck never_throws None) 50) = Inr ())"
  using setBrightness_report [of 150 "example_deck never_throws None"]
        setBrightness_report [of 50 "example_deck never_throws None"]
  by (simp add: example_deck_def new_StreamDeckBase_def never_throws_def)

text \<open>
  C2 (as amended). \<^verbatim>\<open>close()\<close> releases the exit hook and, when
  \<^verbatim>\<open>resetToLogoOnExit\<close> is set, sends the reset report. An error thrown by that
  step is not caught: it leaves \<^verbatim>\<open>close()\<close>, and the transport handle is not
  closed. When the step is not configured, or does not throw, the handle is closed next.
\<close>

theorem close_propagates_reset_error:
  "exitHookReleased (snd (close this))
   \<and> (resetToLogoOnExit (options this) = Some True
        \<and> throws (device this) (calls (device this) @ [SendFeatureReport reset_report]) \<longrightarrow>
          fst (close this) = Inl HIDError
          \<and> calls (device (snd (close this))) =
               calls (device this) @ [SendFeatureReport reset_report])
   \<and> (resetToLogoOnExit (options this) = Some True
        \<and> \<not> throws (device this) (calls (device this) @ [SendFeatureReport reset_report]) \<longrightarrow>
          calls (device (snd (close this))) =
            calls (device this) @ [SendFeatureReport reset_report, Close])
   \<and> (resetToLogoOnExit (options this) \<noteq> Some True \<longrightarrow>
          calls (device (snd (close this))) = calls (device this) @ [Close])"
  by (simp add: close_def Let_def resetToLogo_eq device_call_eq)

theorem close_propagates_reset_error_witness:
  "resetToLogoOnExit (options (example_deck never_throws (Some True))) = Some True
   \<and> calls (device (snd (close (example_deck never_throws (Some True))))) =
        [SendFeatureReport reset_report, Close]
   \<and> calls (device (snd (close (example_deck never_throws None)))) = [Close]
   \<and> fst (close (example_deck feature_reports_throw (Some True))) = Inl HIDError"
  using close_propagates_reset_error [of "example_deck never_throws (Some True)"]
        close_propagates_reset_error [of "example_deck never_throws None"]
        close_propagates_reset_error [of "example_deck feature_reports_throw (Some True)"]
  by (simp add: example_deck_def new_StreamDeckBase_def never_throws_def feature_reports_throw_def)

text \<open>
  C2 as stated fails: on a transport whose feature reports throw (and whose
  \<^verbatim>\<open>close\<close> would not), \<^verbatim>\<open>close()\<close> with \<^verbatim>\<open>resetToLogoOnExit\<close> throws, and
  the only transport call made is the reset report.
\<close>

theorem close_reset_error_counterexample:
  "fst (close (example_deck feature_reports_throw (Some True))) = Inl HIDError
   \<and> calls (device (snd (close (example_deck feature_reports_throw (Some True))))) =
        [SendFeatureReport [0x0B, 0x63, 0, 0, 0, 0, 0, 0, 0, 0, 0, 0, 0, 0, 0, 0, 0]]
   \<and> feature_reports_throw [SendFeatureReport reset_report, Close] = False"
  by (simp add: close_def Let_def resetToLogo_eq device_call_eq reset_report_def
        example_deck_def new_StreamDeckBase_def feature_reports_throw_def)

text \<open>
  C9. \<^verbatim>\<open>clearKey(k)\<close> is \<^verbatim>\<open>fillColor(k, 0, 0, 0)\<close> (for every \<open>k\<close>: on an invalid
  key both throw the same error), and \<^verbatim>\<open>clearAllKeys()\<close> is the loop that runs
  \<^verbatim>\<open>fillColor(k, 0, 0, 0)\<close> for \<open>k = 0, 1, .., NUM_KEYS - 1\<close> in this order, a throw
  ending it.
\<close>

theorem clearKey_clearAllKeys:
  "clearKey this keyIndex = fillColor this keyIndex 0 0 0
   \<and> clearAllKeys this =
       for_each [0..<NUM_KEYS this] (\<lambda>keyIndex this'. fillColor this' (int keyIndex) 0 0 0) this"
  by (simp add: clearAllKeys_def clearKey_eq)

theorem clearKey_clearAllKeys_witness:
  "calls (device (snd (for_each [0..<NUM_KEYS (example_deck never_throws None)]
      (\<lambda>keyIndex this'. fillColor this' (int keyIndex) 0 0 0) (example_deck never_throws None)))) =
     [Write [2, 1, 0, 0, 1, 2, 0, 0, 0, 0, 0, 0, 0, 0, 0, 0, 0, 0, 0, 0],
      Write [2, 1, 0, 0, 1, 1, 0, 0, 0, 0, 0, 0, 0, 0, 0, 0, 0, 0, 0, 0]]"
  using clearKey_clearAllKeys [of "example_deck never_throws None" 0] example_clearAllKeys
  by simp

text \<open>
  C10. With the options argument omitted, or without a format field, \<^verbatim>\<open>fillImage\<close> and
  \<^verbatim>\<open>fillPanel\<close> do what they do with the format \<^verbatim>\<open>'rgb'\<close>: the expected length is
  \<open>ICON_PIXELS * 3\<close> (times \<open>NUM_KEYS\<close> for the panel), and a buffer of that length goes
  to \<^verbatim>\<open>fillImageRange\<close>, hence to the converter, with the format \<^verbatim>\<open>'rgb'\<close>: once
  for the key from \<^verbatim>\<open>fillImage\<close>, and from \<^verbatim>\<open>fillPanel\<close> once for every row and
  column, with the offset and the stride of three bytes per pixel.
\<close>

theorem fillImage_default_format:
  "fillImage this keyIndex imageBuffer None =
     fillImage this keyIndex imageBuffer (Some \<lparr> format = Some ''rgb'' \<rparr>)
   \<and> fillImage this keyIndex imageBuffer (Some \<lparr> format = None \<rparr>) =
     fillImage this keyIndex imageBuffer (Some \<lparr> format = Some ''rgb'' \<rparr>)
   \<and> fillPanel this imageBuffer None =
     fillPanel this imageBuffer (Some \<lparr> format = Some ''rgb'' \<rparr>)
   \<and> fillPanel this imageBuffer (Some \<lparr> format = None \<rparr>) =
     fillPanel this imageBuffer (Some \<lparr> format = Some ''rgb'' \<rparr>)
   \<and> (0 \<le> keyIndex \<and> keyIndex < int (NUM_KEYS this) \<longrightarrow>
        fillImage this keyIndex imageBuffer None =
          (if length imageBuffer \<noteq> ICON_PIXELS this * 3
           then (Inl (InvalidImageLength (int (ICON_PIXELS this * 3)) (int (length imageBuffer))), this)
           else fillImageRange this (transformKeyIndex this keyIndex) imageBuffer
                  \<lparr> sourceFormat = ''rgb'', offset = 0, stride = ICON_SIZE_of this * 3 \<rparr>))
   \<and> (length imageBuffer \<noteq> ICON_PIXELS this * 3 * NUM_KEYS this \<longrightarrow>
        fillPanel this imageBuffer None =
          (Inl (InvalidImageLength (int (ICON_PIXELS this * 3 * NUM_KEYS this))
                  (int (length imageBuffer))), this))
   \<and> (length imageBuffer = ICON_PIXELS this * 3 * NUM_KEYS this \<longrightarrow>
        fillPanel this imageBuffer None =
          for_each [0..<KEY_ROWS this] (\<lambda>row.
            for_each [0..<KEY_COLUMNS this] (\<lambda>column this'.
              fillImageRange this'
                (if KEY_DIRECTION (deviceProperties this') = ltr
                 then int row * int (KEY_COLUMNS this') + int column
                 else int row * int (KEY_COLUMNS this') + (int (KEY_COLUMNS this') - int column - 1))
                imageBuffer
                \<lparr> sourceFormat = ''rgb'',
                  offset = ICON_SIZE_of this * 3 * KEY_COLUMNS this * row * ICON_SIZE_of this
                           + column * (ICON_SIZE_of this * 3),
                  stride = ICON_SIZE_of this * 3 * KEY_COLUMNS this \<rparr>)) this)"
proof -
  have F1: "format_or_rgb None = ''rgb''"
    and F2: "format_or_rgb (Some \<lparr> format = None \<rparr>) = ''rgb''"
    and F3: "format_or_rgb (Some \<lparr> format = Some ''rgb'' \<rparr>) = ''rgb''"
    by (simp_all add: format_or_rgb_def)
  have L: "length ''rgb'' = 3" by simp
  have C: "checkSourceFormat ''rgb'' = Inr ()" by (simp add: checkSourceFormat_def)
  have a: "fillImage this keyIndex imageBuffer None =
             fillImage this keyIndex imageBuffer (Some \<lparr> format = Some ''rgb'' \<rparr>)"
    unfolding fillImage_def F1 F3 ..
  have b: "fillImage this keyIndex imageBuffer (Some \<lparr> format = None \<rparr>) =
             fillImage this keyIndex imageBuffer (Some \<lparr> format = Some ''rgb'' \<rparr>)"
    unfolding fillImage_def F2 F3 ..
  have c: "fillPanel this imageBuffer None =
             fillPanel this imageBuffer (Some \<lparr> format = Some ''rgb'' \<rparr>)"
    unfolding fillPanel_def F1 F3 ..
  have d: "fillPanel this imageBuffer (Some \<lparr> format = None \<rparr>) =
             fillPanel this imageBuffer (Some \<lparr> format = Some ''rgb'' \<rparr>)"
    unfolding fillPanel_def F2 F3 ..
  have e: "0 \<le> keyIndex \<and> keyIndex < int (NUM_KEYS this) \<longrightarrow>
        fillImage this keyIndex imageBuffer None =
          (if length imageBuffer \<noteq> ICON_PIXELS this * 3
           then (Inl (InvalidImageLength (int (ICON_PIXELS this * 3)) (int (length imageBuffer))), this)
           else fillImageRange this (transformKeyIndex this keyIndex) imageBuffer
                  \<lparr> sourceFormat = ''rgb'', offset = 0, stride = ICON_SIZE_of this * 3 \<rparr>)"
  proof
    assume "0 \<le> keyIndex \<and> keyIndex < int (NUM_KEYS this)"
    then have K: "checkValidKeyIndex this keyIndex = Inr ()"
      by (simp add: checkValidKeyIndex_def)
    show "fillImage this keyIndex imageBuffer None =
          (if length imageBuffer \<noteq> ICON_PIXELS this * 3
           then (Inl (InvalidImageLength (int (ICON_PIXELS this * 3)) (int (length imageBuffer))), this)
           else fillImageRange this (transformKeyIndex this keyIndex) imageBuffer
                  \<lparr> sourceFormat = ''rgb'', offset = 0, stride = ICON_SIZE_of this * 3 \<rparr>)"
      unfolding fillImage_def F1 K C L Let_def by (simp only: sum.case)
  qed
  have f: "length imageBuffer \<noteq> ICON_PIXELS this * 3 * NUM_KEYS this \<longrightarrow>
        fillPanel this imageBuffer None =
          (Inl (InvalidImageLength (int (ICON_PIXELS this * 3 * NUM_KEYS this))
                  (int (length imageBuffer))), this)"
    unfolding fillPanel_def F1 C L Let_def by simp
  have g: "length imageBuffer = ICON_PIXELS this * 3 * NUM_KEYS this \<longrightarrow>
        fillPanel this imageBuffer None =
          for_each [0..<KEY_ROWS this] (\<lambda>row.
            for_each [0..<KEY_COLUMNS this] (\<lambda>column this'.
              fillImageRange this'
                (if KEY_DIRECTION (deviceProperties this') = ltr
                 then int row * int (KEY_COLUMNS this') + int column
                 else int row * int (KEY_COLUMNS this') + (int (KEY_COLUMNS this') - int column - 1))
                imageBuffer
                \<lparr> sourceFormat = ''rgb'',
                  offset = ICON_SIZE_of this * 3 * KEY_COLUMNS this * row * ICON_SIZE_of this
                           + column * (ICON_SIZE_of this * 3),
                  stride = ICON_SIZE_of this * 3 * KEY_COLUMNS this \<rparr>)) this"
    unfolding fillPanel_def F1 C L Let_def by simp
  show ?thesis using a b c d e f g by blast
qed

theorem fillImage_default_format_witness:
  "(0::int) \<le> 0 \<and> (0::int) < int (NUM_KEYS (example_deck never_throws None))
   \<and> fillImage (example_deck never_throws None) 0 [1, 2] None =
        (Inl (InvalidImageLength 3 2), example_deck never_throws None)
   \<and> fillImage (example_deck never_throws None) 0 [7, 8, 9] None =
        fillImageRange (example_deck never_throws None) 1 [7, 8, 9]
          \<lparr> sourceFormat = ''rgb'', offset = 0, stride = 3 \<rparr>
   \<and> calls (device (snd (fillImage (example_deck never_throws None) 0 [7, 8, 9] None))) =
        [Write [2, 1, 0, 0, 1, 2, 0, 0, 0, 0, 0, 0, 0, 0, 0, 0, 7, 8, 9, 0]]
   \<and> fillPanel (example_deck never_throws None) [1, 2, 3, 4, 5] None =
        (Inl (InvalidImageLength 6 5), example_deck never_throws None)
   \<and> length [1, 2, 3, 4, 5, 6 :: byte] =
        ICON_PIXELS (example_deck never_throws None) * 3 * NUM_KEYS (example_deck never_throws None)
   \<and> calls (device (snd (
          for_each [0..<KEY_ROWS (example_deck never_throws None)] (\<lambda>row.
            for_each [0..<KEY_COLUMNS (example_deck never_throws None)] (\<lambda>column this'.
              fillImageRange this'
                (if KEY_DIRECTION (deviceProperties this') = ltr
                 then int row * int (KEY_COLUMNS this') + int column
                 else int row * int (KEY_COLUMNS this') + (int (KEY_COLUMNS this') - int column - 1))
                [1, 2, 3, 4, 5, 6]
                \<lparr> sourceFormat = ''rgb'',
                  offset = ICON_SIZE_of (example_deck never_throws None) * 3 * KEY_COLUMNS (example_deck never_throws None) * row * ICON_SIZE_of (example_deck never_throws None)
                           + column * (ICON_SIZE_of (example_deck never_throws None) * 3),
                  stride = ICON_SIZE_of (example_deck never_throws None) * 3 * KEY_COLUMNS (example_deck never_throws None) \<rparr>)) (example_deck never_throws None)))) =
        [Write [2, 1, 0, 0, 1, 2, 0, 0, 0, 0, 0, 0, 0, 0, 0, 0, 1, 2, 3, 0],
         Write [2, 1, 0, 0, 1, 1, 0, 0, 0, 0, 0, 0, 0, 0, 0, 0, 4, 5, 6, 0]]"
proof -
  let ?d = "example_deck never_throws None"
  have k: "(0::int) \<le> 0 \<and> (0::int) < int (NUM_KEYS ?d)" by (simp add: example_sizes)
  have t: "transformKeyIndex ?d 0 = 1"
    by (simp add: example_deck_def new_StreamDeckBase_def example_transform_def)
  note image = fillImage_default_format
    [THEN conjunct2, THEN conjunct2, THEN conjunct2, THEN conjunct2, THEN conjunct1]
  note panel_bad = fillImage_default_format
    [THEN conjunct2, THEN conjunct2, THEN conjunct2, THEN conjunct2, THEN conjunct2,
     THEN conjunct1]
  note panel_ok = fillImage_default_format
    [THEN conjunct2, THEN conjunct2, THEN conjunct2, THEN conjunct2, THEN conjunct2,
     THEN conjunct2, THEN mp]
  have a: "fillImage ?d 0 [1, 2] None = (Inl (InvalidImageLength 3 2), ?d)"
    using image [of 0 ?d "[1, 2]"] k by (simp add: example_sizes)
  have b: "fillImage ?d 0 [7, 8, 9] None =
             fillImageRange ?d 1 [7, 8, 9] \<lparr> sourceFormat = ''rgb'', offset = 0, stride = 3 \<rparr>"
    using image [of 0 ?d "[7, 8, 9]"] k by (simp add: example_sizes t)
  have c: "fillPanel ?d [1, 2, 3, 4, 5] None = (Inl (InvalidImageLength 6 5), ?d)"
    using panel_bad [of "[1, 2, 3, 4, 5]" ?d] by (simp add: example_sizes)
  have l: "length [1, 2, 3, 4, 5, 6 :: byte] = ICON_PIXELS ?d * 3 * NUM_KEYS ?d"
    by (simp add: example_sizes)
  have g: "fillPanel ?d [1, 2, 3, 4, 5, 6] None =
          for_each [0..<KEY_ROWS ?d] (\<lambda>row.
            for_each [0..<KEY_COLUMNS ?d] (\<lambda>column this'.
              fillImageRange this'
                (if KEY_DIRECTION (deviceProperties this') = ltr
                 then int row * int (KEY_COLUMNS this') + int column
                 else int row * int (KEY_COLUMNS this') + (int (KEY_COLUMNS this') - int column - 1))
                [1, 2, 3, 4, 5, 6]
                \<lparr> sourceFormat = ''rgb'',
                  offset = ICON_SIZE_of ?d * 3 * KEY_COLUMNS ?d * row * ICON_SIZE_of ?d
                           + column * (ICON_SIZE_of ?d * 3),
                  stride = ICON_SIZE_of ?d * 3 * KEY_COLUMNS ?d \<rparr>)) ?d"
    using l by (rule panel_ok)
  have p: "calls (device (snd (
          for_each [0..<KEY_ROWS ?d] (\<lambda>row.
            for_each [0..<KEY_COLUMNS ?d] (\<lambda>column this'.
              fillImageRange this'
                (if KEY_DIRECTION (deviceProperties this') = ltr
                 then int row * int (KEY_COLUMNS this') + int column
                 else int row * int (KEY_COLUMNS this') + (int (KEY_COLUMNS this') - int column - 1))
                [1, 2, 3, 4, 5, 6]
                \<lparr> sourceFormat = ''rgb'',
                  offset = ICON_SIZE_of ?d * 3 * KEY_COLUMNS ?d * row * ICON_SIZE_of ?d
                           + column * (ICON_SIZE_of ?d * 3),
                  stride = ICON_SIZE_of ?d * 3 * KEY_COLUMNS ?d \<rparr>)) ?d))) =
        [Write [2, 1, 0, 0, 1, 2, 0, 0, 0, 0, 0, 0, 0, 0, 0, 0, 1, 2, 3, 0],
         Write [2, 1, 0, 0, 1, 1, 0, 0, 0, 0, 0, 0, 0, 0, 0, 0, 4, 5, 6, 0]]"
    unfolding g [symmetric] by (rule example_fillPanel)
  show ?thesis using k a b c l p example_fillImage by (simp only: simp_thms)
qed

text \<open>
  C6. \<^verbatim>\<open>fillColor\<close> with a colour component outside 0..255 throws and returns the
  object as it was: no transport call is made, whatever the converter and the transport
  are; on a valid key the error is the invalid-colour error. \<^verbatim>\<open>fillImage\<close> with a
  buffer whose length is not \<open>ICON_PIXELS\<close> times the length of the format tag (3 or 4)
  throws and returns the object as it was; on a valid key and a known format the error is
  the invalid-length error.
\<close>

theorem validation_fails_fast:
  "((r < 0 \<or> 255 < r \<or> g < 0 \<or> 255 < g \<or> b < 0 \<or> 255 < b) \<longrightarrow>
      snd (fillColor this keyIndex r g b) = this
      \<and> isl (fst (fillColor this keyIndex r g b))
      \<and> (0 \<le> keyIndex \<and> keyIndex < int (NUM_KEYS this) \<longrightarrow>
            fillColor this keyIndex r g b = (Inl InvalidRGBValue, this)))
   \<and> (length imageBuffer \<noteq> ICON_PIXELS this * length (format_or_rgb opts) \<longrightarrow>
      snd (fillImage this keyIndex imageBuffer opts) = this
      \<and> isl (fst (fillImage this keyIndex imageBuffer opts))
      \<and> (0 \<le> keyIndex \<and> keyIndex < int (NUM_KEYS this)
           \<and> checkSourceFormat (format_or_rgb opts) = Inr () \<longrightarrow>
            fillImage this keyIndex imageBuffer opts =
              (Inl (InvalidImageLength (int (ICON_PIXELS this * length (format_or_rgb opts)))
                     (int (length imageBuffer))), this)))"
proof (intro conjI impI)
  assume bad: "r < 0 \<or> 255 < r \<or> g < 0 \<or> 255 < g \<or> b < 0 \<or> 255 < b"
  then have rgb: "and_then (checkRGBValue r) (\<lambda>_. and_then (checkRGBValue g) (\<lambda>_. checkRGBValue b))
                    = Inl InvalidRGBValue"
    by (auto simp: checkRGBValue_def and_then_def)
  have run: "fillColor this keyIndex r g b =
               (case checkValidKeyIndex this keyIndex of
                  Inl e \<Rightarrow> (Inl e, this) | Inr _ \<Rightarrow> (Inl InvalidRGBValue, this))"
    unfolding fillColor_def using rgb by (simp add: and_then_def split: sum.splits)
  show "snd (fillColor this keyIndex r g b) = this"
    unfolding run by (simp split: sum.splits)
  show "isl (fst (fillColor this keyIndex r g b))"
    unfolding run by (simp split: sum.splits)
  assume "0 \<le> keyIndex \<and> keyIndex < int (NUM_KEYS this)"
  then have "checkValidKeyIndex this keyIndex = Inr ()" by (simp add: checkValidKeyIndex_def)
  then show "fillColor this keyIndex r g b = (Inl InvalidRGBValue, this)"
    unfolding run by simp
next
  assume bad: "length imageBuffer \<noteq> ICON_PIXELS this * length (format_or_rgb opts)"
  have run: "fillImage this keyIndex imageBuffer opts =
               (case checkValidKeyIndex this keyIndex of
                  Inl e \<Rightarrow> (Inl e, this)
                | Inr _ \<Rightarrow>
                   (case checkSourceFormat (format_or_rgb opts) of
                      Inl e \<Rightarrow> (Inl e, this)
                    | Inr _ \<Rightarrow>
                       (Inl (InvalidImageLength (int (ICON_PIXELS this * length (format_or_rgb opts)))
                          (int (length imageBuffer))), this)))"
    unfolding fillImage_def Let_def using bad by (simp split: sum.splits)
  show "snd (fillImage this keyIndex imageBuffer opts) = this"
    unfolding run by (simp split: sum.splits)
  show "isl (fst (fillImage this keyIndex imageBuffer opts))"
    unfolding run by (simp split: sum.splits)
  assume "0 \<le> keyIndex \<and> keyIndex < int (NUM_KEYS this)
           \<and> checkSourceFormat (format_or_rgb opts) = Inr ()"
  then have "checkValidKeyIndex this keyIndex = Inr ()"
    and "checkSourceFormat (format_or_rgb opts) = Inr ()"
    by (simp_all add: checkValidKeyIndex_def)
  then show "fillImage this keyIndex imageBuffer opts =
              (Inl (InvalidImageLength (int (ICON_PIXELS this * length (format_or_rgb opts)))
                     (int (length imageBuffer))), this)"
    unfolding run by simp
qed

theorem validation_fails_fast_witness:
  "(255::int) < 256 \<and> (0::int) \<le> 0 \<and> (0::int) < int (NUM_KEYS (example_deck never_throws None))
   \<and> fillColor (example_deck never_throws None) 0 256 0 0 =
        (Inl InvalidRGBValue, example_deck never_throws None)
   \<and> calls (device (snd (fillColor (example_deck never_throws None) 0 256 0 0))) = []
   \<and> length [1, 2 :: byte] \<noteq> ICON_PIXELS (example_deck never_throws None)
        * length (format_or_rgb (Some \<lparr> format = Some ''rgb'' \<rparr>))
   \<and> checkSourceFormat (format_or_rgb (Some \<lparr> format = Some ''rgb'' \<rparr>)) = Inr ()
   \<and> fillImage (example_deck never_throws None) 0 [1, 2] (Some \<lparr> format = Some ''rgb'' \<rparr>) =
        (Inl (InvalidImageLength 3 2), example_deck never_throws None)
   \<and> calls (device (snd (fillImage (example_deck never_throws None) 0 [1, 2]
        (Some \<lparr> format = Some ''rgb'' \<rparr>)))) = []"
proof -
  let ?d = "example_deck never_throws None"
  let ?o = "Some \<lparr> format = Some ''rgb'' \<rparr>"
  note T = validation_fails_fast [where r = 256 and g = 0 and b = 0 and this = ?d
      and keyIndex = 0 and imageBuffer = "[1, 2]" and opts = ?o]
  have k: "(0::int) \<le> 0 \<and> (0::int) < int (NUM_KEYS ?d)" by (simp add: example_sizes)
  have l: "length [1, 2 :: byte] \<noteq> ICON_PIXELS ?d * length (format_or_rgb ?o)"
    by (simp add: example_sizes format_or_rgb_def)
  have f: "checkSourceFormat (format_or_rgb ?o) = Inr ()"
    by (simp add: format_or_rgb_def checkSourceFormat_def)
  have a: "fillColor ?d 0 256 0 0 = (Inl InvalidRGBValue, ?d)" using T k by simp
  have b: "fillImage ?d 0 [1, 2] ?o = (Inl (InvalidImageLength 3 2), ?d)"
    using T k l f by (simp add: example_sizes format_or_rgb_def)
  have e: "calls (device ?d) = []" by (simp add: example_deck_def new_StreamDeckBase_def)
  have c: "(255::int) < 256" by simp
  show ?thesis unfolding a b snd_conv e using c k l f by (simp only: simp_thms)
qed

section \<open>Properties of the input state tracker\<close>

text \<open>
  The index transform is the abstract method of the concrete model; the results below
  hold for every transform that sends different native indices below \<open>NUM_KEYS\<close> to
  different key indices, as each supported layout does.
\<close>

lemma data_step_eq:
  "data_step this data i (ks, emitted) =
     (if ks (transformKeyIndex this (int i)) \<noteq> Some (keyPressed_at data i)
      then (ks(transformKeyIndex this (int i) \<mapsto> keyPressed_at data i),
            emitted @ [key_event_for (keyPressed_at data i) (transformKeyIndex this (int i))])
      else (ks, emitted))"
  by (auto simp: data_step_def Let_def)

lemma fold_data_step:
  assumes "inj_on (\<lambda>i. transformKeyIndex this (int i)) {0..<n}"
  shows "\<exists>ks'. fold (data_step this data) [0..<n] (ks, emitted) =
           (ks', emitted @
                 map (\<lambda>i. key_event_for (keyPressed_at data i) (transformKeyIndex this (int i)))
                   (filter (\<lambda>i. ks (transformKeyIndex this (int i)) \<noteq> Some (keyPressed_at data i))
                      [0..<n]))
         \<and> (\<forall>i<n. ks' (transformKeyIndex this (int i)) = Some (keyPressed_at data i))
         \<and> (\<forall>k. k \<notin> (\<lambda>i. transformKeyIndex this (int i)) ` {0..<n} \<longrightarrow> ks' k = ks k)"
  using assms
proof (induction n)
  case 0
  show ?case by simp
next
  case (Suc n)
  let ?T = "\<lambda>i. transformKeyIndex this (int i)"
  let ?ev = "\<lambda>i. key_event_for (keyPressed_at data i) (?T i)"
  let ?ch = "\<lambda>i. ks (?T i) \<noteq> Some (keyPressed_at data i)"
  have inj: "inj_on ?T {0..<n}"
    using Suc.prems by (rule inj_on_subset) auto
  from Suc.IH [OF inj] obtain ks1 where
    run: "fold (data_step this data) [0..<n] (ks, emitted) =
            (ks1, emitted @ map ?ev (filter ?ch [0..<n]))"
    and cells: "\<forall>i<n. ks1 (?T i) = Some (keyPressed_at data i)"
    and rest: "\<forall>k. k \<notin> ?T ` {0..<n} \<longrightarrow> ks1 k = ks k"
    by blast
  have fresh: "?T n \<notin> ?T ` {0..<n}"
  proof
    assume "?T n \<in> ?T ` {0..<n}"
    then obtain i where i: "i < n" "?T n = ?T i" by auto
    then have "n = i" using Suc.prems by (auto dest!: inj_onD [where x = n and y = i])
    then show False using i by simp
  qed
  then have same: "ks1 (?T n) = ks (?T n)" using rest by blast
  have other: "\<And>i. i < n \<Longrightarrow> ?T i \<noteq> ?T n"
    using fresh by (metis (no_types, lifting) atLeastLessThan_iff imageI zero_le)
  define ks2 where "ks2 = (if ?ch n then ks1(?T n \<mapsto> keyPressed_at data n) else ks1)"
  have step: "fold (data_step this data) [0..<Suc n] (ks, emitted) =
          (ks2, emitted @ map ?ev (filter ?ch [0..<Suc n]))"
    by (simp add: run data_step_eq same ks2_def)
  have c1: "\<forall>i<Suc n. ks2 (?T i) = Some (keyPressed_at data i)"
  proof (intro allI impI)
    fix i assume "i < Suc n"
    then consider "i < n" | "i = n" by linarith
    then show "ks2 (?T i) = Some (keyPressed_at data i)"
    proof cases
      case 1
      then show ?thesis using cells other [OF 1] by (simp add: ks2_def)
    next
      case 2
      then show ?thesis using same by (simp add: ks2_def)
    qed
  qed
  have c2: "\<forall>k. k \<notin> ?T ` {0..<Suc n} \<longrightarrow> ks2 k = ks k"
  proof (intro allI impI)
    fix k assume k: "k \<notin> ?T ` {0..<Suc n}"
    then have "k \<noteq> ?T n" and "k \<notin> ?T ` {0..<n}" by auto
    then show "ks2 k = ks k" using rest by (simp add: ks2_def)
  qed
  show ?case using step c1 c2 by blast
qed




lemma event_key_for [simp]: "event_key (key_event_for p k) = k"
  by (simp add: event_key_def key_event_for_def)

lemma key_event_for_down: "(key_event_for p k = down k') = (p \<and> k = k')"
  by (simp add: key_event_for_def)

lemma key_event_for_up: "(key_event_for p k = up k') = (\<not> p \<and> k = k')"
  by (simp add: key_event_for_def)

lemma mem_map_filter_upt:
  "(e \<in> set (map f (filter P [0..<n]))) = (\<exists>j<n. P j \<and> f j = e)"
  by auto

lemma data_step_keyState [simp]: "data_step (this\<lparr>keyState := ks\<rparr>) = data_step this"
  by (intro ext) (simp add: data_step_def)

lemma on_data_eq:
  assumes "inj_on (\<lambda>i. transformKeyIndex this (int i)) {0..<NUM_KEYS this}"
  shows "\<exists>ks'. on_data this data0 =
           (map (\<lambda>i. key_event_for (keyPressed_at (report_keys this data0) i)
                        (transformKeyIndex this (int i)))
              (filter (\<lambda>i. keyState this (transformKeyIndex this (int i)) \<noteq>
                              Some (keyPressed_at (report_keys this data0) i))
                 [0..<NUM_KEYS this]),
            this\<lparr>keyState := ks'\<rparr>)
         \<and> (\<forall>i<NUM_KEYS this. ks' (transformKeyIndex this (int i)) =
                Some (keyPressed_at (report_keys this data0) i))
         \<and> (\<forall>k. k \<notin> (\<lambda>i. transformKeyIndex this (int i)) ` {0..<NUM_KEYS this} \<longrightarrow>
                ks' k = keyState this k)"
proof -
  from fold_data_step [OF assms, of "report_keys this data0" "keyState this" "[]"]
  obtain ks' where
    run: "fold (data_step this (report_keys this data0)) [0..<NUM_KEYS this] (keyState this, []) =
            (ks', [] @ map (\<lambda>i. key_event_for (keyPressed_at (report_keys this data0) i)
                        (transformKeyIndex this (int i)))
              (filter (\<lambda>i. keyState this (transformKeyIndex this (int i)) \<noteq>
                              Some (keyPressed_at (report_keys this data0) i))
                 [0..<NUM_KEYS this]))"
    and cells: "\<forall>i<NUM_KEYS this. ks' (transformKeyIndex this (int i)) =
                Some (keyPressed_at (report_keys this data0) i)"
    and rest: "\<forall>k. k \<notin> (\<lambda>i. transformKeyIndex this (int i)) ` {0..<NUM_KEYS this} \<longrightarrow>
                ks' k = keyState this k"
    by blast
  have "on_data this data0 =
           (map (\<lambda>i. key_event_for (keyPressed_at (report_keys this data0) i)
                        (transformKeyIndex this (int i)))
              (filter (\<lambda>i. keyState this (transformKeyIndex this (int i)) \<noteq>
                              Some (keyPressed_at (report_keys this data0) i))
                 [0..<NUM_KEYS this]),
            this\<lparr>keyState := ks'\<rparr>)"
    by (simp add: on_data_def Let_def run)
  then show ?thesis using cells rest by blast
qed





lemma example_inj:
  "inj_on (\<lambda>i. transformKeyIndex (example_deck env reset) (int i))
     {0..<NUM_KEYS (example_deck env reset)}"
proof -
  have "{0..<2::nat} = {0, 1}" by auto
  then show ?thesis
    by (simp add: NUM_KEYS_def KEY_COLUMNS_def KEY_ROWS_def example_deck_def
          new_StreamDeckBase_def example_properties_def example_transform_def)
qed

lemma example_on_data:
  "keyPressed_at (report_keys (example_deck never_throws None) [0, 1, 0, 0]) 0 = True"
  "fst (on_data (example_deck never_throws None) [0, 1, 0, 0]) = [down 1]"
  "keyState (snd (on_data (example_deck never_throws None) [0, 1, 0, 0])) 0 = Some False"
  "keyState (snd (on_data (example_deck never_throws None) [0, 1, 0, 0])) 1 = Some True"
  by code_simp+

text \<open>
  C3 (as amended). While a report is processed, the byte for native key \<open>i\<close> is compared
  against, and stored into, entry \<open>transformKeyIndex(i)\<close> of the key state array: the
  same transformed index the emitted event carries. Entries that are no key's transformed
  index are left as they were.
\<close>

theorem on_data_state_cells:
  assumes "inj_on (\<lambda>i. transformKeyIndex this (int i)) {0..<NUM_KEYS this}"
  shows "(\<forall>i<NUM_KEYS this.
            keyState (snd (on_data this data0)) (transformKeyIndex this (int i)) =
              Some (keyPressed_at (report_keys this data0) i))
       \<and> (\<forall>k. k \<notin> (\<lambda>i. transformKeyIndex this (int i)) ` {0..<NUM_KEYS this} \<longrightarrow>
            keyState (snd (on_data this data0)) k = keyState this k)
       \<and> fst (on_data this data0) =
           map (\<lambda>i. key_event_for (keyPressed_at (report_keys this data0) i)
                        (transformKeyIndex this (int i)))
             (filter (\<lambda>i. keyState this (transformKeyIndex this (int i)) \<noteq>
                             Some (keyPressed_at (report_keys this data0) i))
                [0..<NUM_KEYS this])"
proof -
  from on_data_eq [OF assms, of data0] obtain ks' where
    run: "on_data this data0 =
           (map (\<lambda>i. key_event_for (keyPressed_at (report_keys this data0) i)
                        (transformKeyIndex this (int i)))
              (filter (\<lambda>i. keyState this (transformKeyIndex this (int i)) \<noteq>
                              Some (keyPressed_at (report_keys this data0) i))
                 [0..<NUM_KEYS this]),
            this\<lparr>keyState := ks'\<rparr>)"
    and cells: "\<forall>i<NUM_KEYS this. ks' (transformKeyIndex this (int i)) =
                Some (keyPressed_at (report_keys this data0) i)"
    and rest: "\<forall>k. k \<notin> (\<lambda>i. transformKeyIndex this (int i)) ` {0..<NUM_KEYS this} \<longrightarrow>
                ks' k = keyState this k"
    by blast
  show ?thesis unfolding run using cells rest by simp
qed

theorem on_data_state_cells_witness:
  "inj_on (\<lambda>i. transformKeyIndex (example_deck never_throws None) (int i))
     {0..<NUM_KEYS (example_deck never_throws None)}
   \<and> (0::nat) < NUM_KEYS (example_deck never_throws None)
   \<and> transformKeyIndex (example_deck never_throws None) (int 0) = 1
   \<and> keyState (snd (on_data (example_deck never_throws None) [0, 1, 0, 0])) 1 = Some True
   \<and> fst (on_data (example_deck never_throws None) [0, 1, 0, 0]) = [down 1]"
proof -
  let ?d = "example_deck never_throws None"
  note T = on_data_state_cells [OF example_inj, of never_throws None "[0, 1, 0, 0]"]
  have n: "(0::nat) < NUM_KEYS ?d" by (simp add: example_sizes)
  have t: "transformKeyIndex ?d (int 0) = 1"
    by (simp add: example_deck_def new_StreamDeckBase_def example_transform_def)
  from T n have "keyState (snd (on_data ?d [0, 1, 0, 0])) (transformKeyIndex ?d (int 0)) =
                   Some (keyPressed_at (report_keys ?d [0, 1, 0, 0]) 0)"
    by blast
  then have c: "keyState (snd (on_data ?d [0, 1, 0, 0])) 1 = Some True"
    unfolding t example_on_data(1) .
  show ?thesis using example_inj n t c example_on_data(2) by (simp only: simp_thms)
qed

text \<open>
  C3 as stated fails where the transform is not the identity: on the two-key device with
  mirrored columns, a report with native key 0 pressed leaves entry 0 false and sets
  entry 1.
\<close>

theorem on_data_native_cell_counterexample:
  "keyPressed_at (report_keys (example_deck never_throws None) [0, 1, 0, 0]) 0 = True
   \<and> keyState (snd (on_data (example_deck never_throws None) [0, 1, 0, 0])) 0 = Some False
   \<and> keyState (snd (on_data (example_deck never_throws None) [0, 1, 0, 0])) 1 = Some True
   \<and> fst (on_data (example_deck never_throws None) [0, 1, 0, 0]) = [down 1]"
  by (simp only: example_on_data simp_thms)

text \<open>
  C7. Processing a report emits \<open>down\<close> for a key exactly when its byte is non-zero and
  its stored state is not pressed, and \<open>up\<close> exactly when its byte is zero and its stored
  state is not released; every event carries a key's index, no two events of one report
  carry the same index, and processing the same report again at once emits nothing.
\<close>

theorem on_data_change_driven:
  assumes "inj_on (\<lambda>i. transformKeyIndex this (int i)) {0..<NUM_KEYS this}"
  shows "(\<forall>i<NUM_KEYS this.
            (down (transformKeyIndex this (int i)) \<in> set (fst (on_data this data0))) =
              (keyPressed_at (report_keys this data0) i
               \<and> keyState this (transformKeyIndex this (int i)) \<noteq> Some True)
          \<and> (up (transformKeyIndex this (int i)) \<in> set (fst (on_data this data0))) =
              (\<not> keyPressed_at (report_keys this data0) i
               \<and> keyState this (transformKeyIndex this (int i)) \<noteq> Some False))
       \<and> event_key ` set (fst (on_data this data0))
            \<subseteq> (\<lambda>i. transformKeyIndex this (int i)) ` {0..<NUM_KEYS this}
       \<and> distinct (map event_key (fst (on_data this data0)))
       \<and> fst (on_data (snd (on_data this data0)) data0) = []"
proof -
  let ?T = "\<lambda>i. transformKeyIndex this (int i)"
  let ?p = "keyPressed_at (report_keys this data0)"
  let ?ch = "\<lambda>i. keyState this (?T i) \<noteq> Some (?p i)"
  let ?N = "NUM_KEYS this"
  from on_data_eq [OF assms, of data0] obtain ks' where
    run: "on_data this data0 =
           (map (\<lambda>i. key_event_for (?p i) (?T i)) (filter ?ch [0..<?N]), this\<lparr>keyState := ks'\<rparr>)"
    and cells: "\<forall>i<?N. ks' (?T i) = Some (?p i)"
    by blast
  have evs: "fst (on_data this data0) = map (\<lambda>i. key_event_for (?p i) (?T i)) (filter ?ch [0..<?N])"
    by (simp add: run)
  have injD: "\<And>i j. i < ?N \<Longrightarrow> j < ?N \<Longrightarrow> ?T j = ?T i \<Longrightarrow> j = i"
    using assms by (auto dest: inj_onD)
  have c1: "\<forall>i<?N.
            (down (?T i) \<in> set (fst (on_data this data0))) = (?p i \<and> keyState this (?T i) \<noteq> Some True)
          \<and> (up (?T i) \<in> set (fst (on_data this data0))) = (\<not> ?p i \<and> keyState this (?T i) \<noteq> Some False)"
  proof (intro allI impI conjI)
    fix i assume i: "i < ?N"
    have "(down (?T i) \<in> set (fst (on_data this data0))) =
            (\<exists>j<?N. ?ch j \<and> ?p j \<and> ?T j = ?T i)"
      unfolding evs mem_map_filter_upt key_event_for_down by blast
    also have "\<dots> = (?ch i \<and> ?p i)" using i injD by blast
    finally show "(down (?T i) \<in> set (fst (on_data this data0))) =
                    (?p i \<and> keyState this (?T i) \<noteq> Some True)"
      by auto
    have "(up (?T i) \<in> set (fst (on_data this data0))) =
            (\<exists>j<?N. ?ch j \<and> \<not> ?p j \<and> ?T j = ?T i)"
      unfolding evs mem_map_filter_upt key_event_for_up by blast
    also have "\<dots> = (?ch i \<and> \<not> ?p i)" using i injD by blast
    finally show "(up (?T i) \<in> set (fst (on_data this data0))) =
                    (\<not> ?p i \<and> keyState this (?T i) \<noteq> Some False)"
      by auto
  qed
  have keys: "map event_key (fst (on_data this data0)) = map ?T (filter ?ch [0..<?N])"
    unfolding evs by (simp add: comp_def)
  have c2: "event_key ` set (fst (on_data this data0)) \<subseteq> ?T ` {0..<?N}"
    using keys by (metis (no_types, lifting) atLeastLessThan_upt filter_is_subset image_mono
        list.set_map)
  have "inj_on ?T (set (filter ?ch [0..<?N]))"
    using assms by (rule inj_on_subset) auto
  then have c3: "distinct (map event_key (fst (on_data this data0)))"
    unfolding keys by (simp add: distinct_map)
  have inj': "inj_on (\<lambda>i. transformKeyIndex (this\<lparr>keyState := ks'\<rparr>) (int i))
                {0..<NUM_KEYS (this\<lparr>keyState := ks'\<rparr>)}"
    using assms by (simp add: NUM_KEYS_def KEY_COLUMNS_def KEY_ROWS_def)
  have same: "report_keys (this\<lparr>keyState := ks'\<rparr>) data0 = report_keys this data0"
    "NUM_KEYS (this\<lparr>keyState := ks'\<rparr>) = ?N"
    by (simp_all add: report_keys_def NUM_KEYS_def KEY_COLUMNS_def KEY_ROWS_def)
  from on_data_eq [OF inj', of data0]
  have "fst (on_data (this\<lparr>keyState := ks'\<rparr>) data0) =
          map (\<lambda>i. key_event_for (?p i) (?T i)) (filter (\<lambda>i. ks' (?T i) \<noteq> Some (?p i)) [0..<?N])"
    by (auto simp: same)
  also have "filter (\<lambda>i. ks' (?T i) \<noteq> Some (?p i)) [0..<?N] = []"
    using cells by (simp add: filter_empty_conv)
  finally have c4: "fst (on_data (snd (on_data this data0)) data0) = []"
    by (simp add: run)
  show ?thesis using c1 c2 c3 c4 by blast
qed

theorem on_data_change_driven_witness:
  "inj_on (\<lambda>i. transformKeyIndex (example_deck never_throws None) (int i))
     {0..<NUM_KEYS (example_deck never_throws None)}
   \<and> fst (on_data (example_deck never_throws None) [0, 1, 0, 0]) = [down 1]
   \<and> distinct (map event_key (fst (on_data (example_deck never_throws None) [0, 1, 0, 0])))
   \<and> fst (on_data (snd (on_data (example_deck never_throws None) [0, 1, 0, 0])) [0, 1, 0, 0]) = []"
proof -
  note T = on_data_change_driven [OF example_inj, of never_throws None "[0, 1, 0, 0]"]
  show ?thesis using example_inj T example_on_data(2) by (simp only: simp_thms)
qed

end
